theory Spec2Isabelle
  imports Main "HOL-Library.Multiset"
begin

section \<open>JavaScript strings and the built-ins used by \<open>static/js/main.js\<close>\<close>

text \<open>
  A JavaScript string is a sequence of UTF-16 code units. A code unit is modelled by
  its number; \<open>js\<close> turns an ASCII literal into the code units it stands for.
\<close>

type_synonym jschar = nat
type_synonym jsstring = "jschar list"

definition js :: "string \<Rightarrow> jsstring" where
  "js s = map of_char s"

text \<open>
  The code units that \<open>String.prototype.trim\<close>, the regular expression class
  \<open>\s\<close> and \<open>parseInt\<close> treat as white space: the WhiteSpace and
  LineTerminator productions of ECMAScript (TAB, LF, VT, FF, CR, SP, NBSP, U+1680,
  U+2000 to U+200A, LS, PS, U+202F, U+205F, U+3000 and the byte order mark).
\<close>

definition isWhiteSpace :: "jschar \<Rightarrow> bool" where
  "isWhiteSpace c =
     (c \<in> set [0x09, 0x0A, 0x0B, 0x0C, 0x0D, 0x20, 0xA0, 0x1680,
                0x2028, 0x2029, 0x202F, 0x205F, 0x3000, 0xFEFF]
      \<or> (0x2000 \<le> c \<and> c \<le> 0x200A))"

definition trimStart :: "jsstring \<Rightarrow> jsstring" where
  "trimStart s = dropWhile isWhiteSpace s"

definition trimEnd :: "jsstring \<Rightarrow> jsstring" where
  "trimEnd s = rev (dropWhile isWhiteSpace (rev s))"

text \<open>\<open>input.trim()\<close>\<close>

definition trim :: "jsstring \<Rightarrow> jsstring" where
  "trim s = trimEnd (trimStart s)"

text \<open>\<open>s.replace(/,/g, ' ')\<close>: every comma becomes a space.\<close>

definition replace_commas :: "jsstring \<Rightarrow> jsstring" where
  "replace_commas s = map (\<lambda>c. if c = 0x2C then 0x20 else c) s"

text \<open>
  \<open>s.split(/\s+/)\<close>, as the loop of the language definition runs it: \<open>cur\<close> is the
  field being read and the second list is the rest of the string. Where the rest
  starts with white space, the match of \<open>\s+\<close> is the whole run; the field read so
  far is emitted (also when it is empty) and reading resumes behind the run. The
  field open at the end of the string is emitted as well.
\<close>

function split_loop :: "jsstring \<Rightarrow> jsstring \<Rightarrow> jsstring list" where
  "split_loop cur [] = [cur]"
| "split_loop cur (c # cs) =
     (if isWhiteSpace c then cur # split_loop [] (dropWhile isWhiteSpace cs)
      else split_loop (cur @ [c]) cs)"
  by pat_completeness auto
termination
  by (relation "measure (\<lambda>(cur, s). length s)")
     (auto simp: length_dropWhile_le less_Suc_eq_le)

definition split_ws :: "jsstring \<Rightarrow> jsstring list" where
  "split_ws s = split_loop [] s"

text \<open>
  \<open>Array.prototype.join\<close> on an array of strings, and
  \<open>Array.prototype.slice(start, end)\<close> with its relative indices (a negative index
  counts from the end, \<open>None\<close> is an omitted \<open>end\<close>).
\<close>

fun join :: "jsstring \<Rightarrow> jsstring list \<Rightarrow> jsstring" where
  "join sep [] = []"
| "join sep [x] = x"
| "join sep (x # y # ys) = x @ sep @ join sep (y # ys)"

definition slice :: "int \<Rightarrow> int option \<Rightarrow> 'a list \<Rightarrow> 'a list" where
  "slice start end xs =
     (let len = int (length xs);
          k = (if start < 0 then max (len + start) 0 else min start len);
          final = (case end of
                     None \<Rightarrow> len
                   | Some e \<Rightarrow> if e < 0 then max (len + e) 0 else min e len)
      in take (nat (final - k)) (drop (nat k) xs))"

subsection \<open>Numbers: \<open>parseInt\<close> and the conversion of a number to a string\<close>

text \<open>
  The value of an alphanumeric code unit as a digit (\<open>0\<close>-\<open>9\<close>, then \<open>a\<close>-\<open>z\<close> or
  \<open>A\<close>-\<open>Z\<close> for 10 to 35); a code unit is a digit of radix \<open>R\<close> when its value
  is below \<open>R\<close>.
\<close>

definition digitValue :: "jschar \<Rightarrow> nat option" where
  "digitValue c =
     (if 0x30 \<le> c \<and> c \<le> 0x39 then Some (c - 0x30)
      else if 0x61 \<le> c \<and> c \<le> 0x7A then Some (c - 0x61 + 10)
      else if 0x41 \<le> c \<and> c \<le> 0x5A then Some (c - 0x41 + 10)
      else None)"

definition isRadixDigit :: "nat \<Rightarrow> jschar \<Rightarrow> bool" where
  "isRadixDigit R c = (case digitValue c of None \<Rightarrow> False | Some v \<Rightarrow> v < R)"

definition radixValue :: "nat \<Rightarrow> jsstring \<Rightarrow> nat" where
  "radixValue R Z = foldl (\<lambda>a c. a * R + the (digitValue c)) 0 Z"

text \<open>
  \<open>parseInt(string)\<close> with no radix argument. Leading white space is skipped, one
  sign is read, a prefix \<open>0x\<close> or \<open>0X\<close> selects radix 16 (radix 10 otherwise), and
  the longest run of digits of that radix is the numeral; whatever follows it is
  ignored. The result is \<open>None\<close> for NaN (no digit was read) and otherwise the
  integer read. (\<open>the\<close> in \<open>radixValue\<close> only ever sees digits: \<open>Z\<close> is a run of
  them.)
\<close>

definition parseInt :: "jsstring \<Rightarrow> int option" where
  "parseInt string =
     (let S = trimStart string;
          sign = (case S of c # _ \<Rightarrow> if c = 0x2D then - 1 else 1 | [] \<Rightarrow> (1::int));
          S = (case S of c # cs \<Rightarrow> if c = 0x2B \<or> c = 0x2D then cs else S | [] \<Rightarrow> S);
          hex = (take 2 S = js ''0x'' \<or> take 2 S = js ''0X'');
          R = (if hex then 16 else 10);
          S = (if hex then drop 2 S else S);
          Z = takeWhile (isRadixDigit R) S
      in if Z = [] then None else Some (sign * int (radixValue R Z)))"

text \<open>
  The decimal numeral of a natural number, and the string of a number as a template
  literal or \<open>join\<close> produces it. A number is an IEEE double: an integer of
  magnitude below \<open>2^53\<close> is held exactly and printed as its decimal numeral. A
  longer run of digits is rounded by the engine when it is read and printed in the
  engine's shortest form (exponent notation from \<open>1e21\<close> on, \<open>Infinity\<close>); that
  rendering is the parameter \<open>big\<close> of everything below. Rounding moves no such
  value into the range 1 to 1000, so the comparisons of the validator are those of
  the integers.
\<close>

fun natToString :: "nat \<Rightarrow> jsstring" where
  "natToString n =
     (if n < 10 then [0x30 + n] else natToString (n div 10) @ [0x30 + n mod 10])"

definition numberToString :: "(int \<Rightarrow> jsstring) \<Rightarrow> int \<Rightarrow> jsstring" where
  "numberToString big n =
     (if \<bar>n\<bar> < 2 ^ 53
      then (if n < 0 then 0x2D # natToString (nat (- n)) else natToString (nat n))
      else big n)"

section \<open>\<open>formatNumbers\<close> and \<open>validateNumberInput\<close>\<close>

text \<open>
  \<open>formatNumbers(numbers)\<close>. The elements are rendered by \<open>toStr\<close>, the conversion
  of an element to a string that \<open>join\<close> applies.
\<close>

definition formatNumbers :: "('a \<Rightarrow> jsstring) \<Rightarrow> 'a list \<Rightarrow> jsstring" where
  "formatNumbers toStr numbers =
     (if length numbers \<le> 10 then join (js '', '') (map toStr numbers)
      else join (js '', '') (map toStr (slice 0 (Some 5) numbers)) @ js '' ... '' @
           join (js '', '') (map toStr (slice (- 5) None numbers)))"

text \<open>
  The object that \<open>validateNumberInput\<close> returns. \<open>numbers\<close> is absent, \<open>null\<close> or
  an array; \<open>message\<close> and \<open>error\<close> are \<open>None\<close> where the object has no such
  property.
\<close>

datatype numbers_field = Undefined | Null | Array "int list"

record result =
  valid :: bool
  numbers :: numbers_field
  message :: "jsstring option"
  error :: "jsstring option"

text \<open>
  The \<open>for (const numStr of numbers)\<close> loop, with the two arrays it pushes to as
  explicit state.
\<close>

fun for_loop ::
  "(int \<Rightarrow> jsstring) \<Rightarrow> jsstring list \<Rightarrow> int list \<Rightarrow> jsstring list \<Rightarrow> int list \<times> jsstring list"
where
  "for_loop big [] validNumbers errors = (validNumbers, errors)"
| "for_loop big (numStr # rest) validNumbers errors =
     (case parseInt numStr of
        None \<Rightarrow>
          for_loop big rest validNumbers
            (errors @ [js ''\"'' @ numStr @ js ''\" is not a number''])
      | Some num \<Rightarrow>
          if num < 1 \<or> num > 1000
          then for_loop big rest validNumbers
                 (errors @ [numberToString big num @ js '' is out of range (1-1000)''])
          else for_loop big rest (validNumbers @ [num]) errors)"

text \<open>The token list: \<open>trimmed.replace(/,/g, ' ').split(/\s+/).filter(n => n)\<close>.\<close>

definition tokens :: "jsstring \<Rightarrow> jsstring list" where
  "tokens trimmed = filter (\<lambda>n. n \<noteq> []) (split_ws (replace_commas trimmed))"

definition validateNumberInput :: "(int \<Rightarrow> jsstring) \<Rightarrow> jsstring \<Rightarrow> result" where
  "validateNumberInput big input =
     (let trimmed = trim input in
      if trimmed = []
      then \<lparr>valid = True, numbers = Null,
            message = Some (js ''Empty input - will use random numbers''), error = None\<rparr>
      else
        (case for_loop big (tokens trimmed) [] [] of
           (validNumbers, errors) \<Rightarrow>
             if length errors > 0
             then \<lparr>valid = False, numbers = Undefined, message = None,
                   error = Some (join (js '', '') errors)\<rparr>
             else if length validNumbers > 25
             then \<lparr>valid = True, numbers = Array (slice 0 (Some 25) validNumbers),
                   message = Some (js ''Too many numbers. Using first 25: '' @
                     join (js '', '')
                       (map (numberToString big) (slice 0 (Some 25) validNumbers))),
                   error = None\<rparr>
             else \<lparr>valid = True, numbers = Array validNumbers,
                   message = Some (js ''Valid numbers: '' @
                     join (js '', '') (map (numberToString big) validNumbers)),
                   error = None\<rparr>))"

subsection \<open>The function with its arrays in a store\<close>

text \<open>
  The same function with the mutable objects of the run time made explicit. A store
  is the list of the arrays that exist, an array being addressed by its position; it
  holds whatever earlier calls and the rest of the page have created. The function
  creates \<open>validNumbers\<close> and \<open>errors\<close> with the literal \<open>[]\<close>, changes them with
  \<open>push\<close> only, and reads back their contents for the result. The array of tokens
  is never changed after \<open>filter\<close> has returned it, so it stays a value.
\<close>

datatype cell = Numbers "int list" | Strings "jsstring list"

type_synonym store = "cell list"

text \<open>The array literal \<open>[]\<close>: a new array at a fresh address.\<close>

definition new_array :: "cell \<Rightarrow> store \<Rightarrow> nat \<times> store" where
  "new_array c h = (length h, h @ [c])"

text \<open>
  \<open>Array.prototype.push\<close> on the array at an address; an address that holds no
  array of the right kind is left alone.
\<close>

definition push_number :: "nat \<Rightarrow> int \<Rightarrow> store \<Rightarrow> store" where
  "push_number a v h =
     (if a < length h
      then (case h ! a of Numbers xs \<Rightarrow> h[a := Numbers (xs @ [v])] | Strings _ \<Rightarrow> h)
      else h)"

definition push_string :: "nat \<Rightarrow> jsstring \<Rightarrow> store \<Rightarrow> store" where
  "push_string a v h =
     (if a < length h
      then (case h ! a of Strings xs \<Rightarrow> h[a := Strings (xs @ [v])] | Numbers _ \<Rightarrow> h)
      else h)"

text \<open>Reading the array at an address (for \<open>length\<close>, \<open>join\<close> and \<open>slice\<close>).\<close>

definition numbers_of :: "store \<Rightarrow> nat \<Rightarrow> int list" where
  "numbers_of h a =
     (if a < length h then (case h ! a of Numbers xs \<Rightarrow> xs | Strings _ \<Rightarrow> []) else [])"

definition strings_of :: "store \<Rightarrow> nat \<Rightarrow> jsstring list" where
  "strings_of h a =
     (if a < length h then (case h ! a of Strings xs \<Rightarrow> xs | Numbers _ \<Rightarrow> []) else [])"

text \<open>The loop, pushing to the two arrays in the store.\<close>

fun for_loop_store ::
  "(int \<Rightarrow> jsstring) \<Rightarrow> jsstring list \<Rightarrow> nat \<Rightarrow> nat \<Rightarrow> store \<Rightarrow> store"
where
  "for_loop_store big [] validNumbers errors h = h"
| "for_loop_store big (numStr # rest) validNumbers errors h =
     (case parseInt numStr of
        None \<Rightarrow>
          for_loop_store big rest validNumbers errors
            (push_string errors (js ''\"'' @ numStr @ js ''\" is not a number'') h)
      | Some num \<Rightarrow>
          if num < 1 \<or> num > 1000
          then for_loop_store big rest validNumbers errors
                 (push_string errors
                    (numberToString big num @ js '' is out of range (1-1000)'') h)
          else for_loop_store big rest validNumbers errors (push_number validNumbers num h))"

text \<open>
  The function in a store: the result, and the store that the call leaves behind.
  The early return for an empty input creates nothing.
\<close>

definition validateNumberInput_store ::
  "(int \<Rightarrow> jsstring) \<Rightarrow> jsstring \<Rightarrow> store \<Rightarrow> result \<times> store" where
  "validateNumberInput_store big input h =
     (let trimmed = trim input in
      if trimmed = []
      then (\<lparr>valid = True, numbers = Null,
             message = Some (js ''Empty input - will use random numbers''), error = None\<rparr>, h)
      else
        (case new_array (Numbers []) h of
           (validNumbers, h1) \<Rightarrow>
             (case new_array (Strings []) h1 of
                (errors, h2) \<Rightarrow>
                  (let h3 = for_loop_store big (tokens trimmed) validNumbers errors h2 in
                   if length (strings_of h3 errors) > 0
                   then (\<lparr>valid = False, numbers = Undefined, message = None,
                          error = Some (join (js '', '') (strings_of h3 errors))\<rparr>, h3)
                   else if length (numbers_of h3 validNumbers) > 25
                   then (\<lparr>valid = True,
                          numbers = Array (slice 0 (Some 25) (numbers_of h3 validNumbers)),
                          message = Some (js ''Too many numbers. Using first 25: '' @
                            join (js '', '')
                              (map (numberToString big)
                                 (slice 0 (Some 25) (numbers_of h3 validNumbers)))),
                          error = None\<rparr>, h3)
                   else (\<lparr>valid = True, numbers = Array (numbers_of h3 validNumbers),
                          message = Some (js ''Valid numbers: '' @
                            join (js '', '')
                              (map (numberToString big) (numbers_of h3 validNumbers))),
                          error = None\<rparr>, h3)))))"

section \<open>Reference definitions for the properties\<close>

text \<open>
  The token list as the specification words it: the input is cut at every comma and
  at every white space character, and the empty pieces are dropped.
\<close>

definition isDelimiter :: "jschar \<Rightarrow> bool" where
  "isDelimiter c = (c = 0x2C \<or> isWhiteSpace c)"

fun pieces :: "(jschar \<Rightarrow> bool) \<Rightarrow> jsstring \<Rightarrow> jsstring list" where
  "pieces D [] = [[]]"
| "pieces D (c # cs) =
     (if D c then [] # pieces D cs
      else (case pieces D cs of f # fs \<Rightarrow> (c # f) # fs | [] \<Rightarrow> [[c]]))"

definition spec_tokens :: "jsstring \<Rightarrow> jsstring list" where
  "spec_tokens input = filter (\<lambda>t. t \<noteq> []) (pieces isDelimiter input)"

text \<open>
  What one turn of the loop does with a token, read off its three branches: the
  message it pushes to \<open>errors\<close>, or the number it pushes to \<open>validNumbers\<close>.
\<close>

definition token_error :: "(int \<Rightarrow> jsstring) \<Rightarrow> jsstring \<Rightarrow> jsstring option" where
  "token_error big numStr =
     (case parseInt numStr of
        None \<Rightarrow> Some (js ''\"'' @ numStr @ js ''\" is not a number'')
      | Some num \<Rightarrow>
          if num < 1 \<or> num > 1000
          then Some (numberToString big num @ js '' is out of range (1-1000)'')
          else None)"

definition token_value :: "jsstring \<Rightarrow> int option" where
  "token_value numStr =
     (case parseInt numStr of
        None \<Rightarrow> None
      | Some num \<Rightarrow> if num < 1 \<or> num > 1000 then None else Some num)"

section \<open>The step generators of the sorting engine\<close>

text \<open>
  The sorting engine of the repository (the step generators of the six algorithms
  and the steps they emit) is its Python visualiser, whose code is not part of the
  sources this development is written from. Each definition of this section is
  therefore written from the specification, sections 3 and 4.2, and says so.
\<close>

text \<open>
  Modelled from the spec: the sort direction of the missing visualiser,
  ``Ascending|Descending''.
\<close>

datatype direction = Ascending | Descending

text \<open>
  Modelled from the spec: the six algorithms of the missing visualiser, ``Bubble,
  Insertion, Selection, Quick, Merge, Heap''.
\<close>

datatype algorithm = Bubble | Insertion | Selection | Quick | Merge | Heap

text \<open>
  Modelled from the spec: the \<open>kind\<close> of a step of the missing visualiser, ``one of
  compare, swap, set, pivot, merge-write, sift, done''.
\<close>

datatype step_kind = KCompare | KSwap | KSet | KPivot | KMergeWrite | KSift | KDone

text \<open>
  Modelled from the spec: the \<open>Step\<close> record of the missing visualiser, with its
  \<open>kind\<close>, the \<open>indices\<close> involved, the \<open>arraySnapshot\<close> (``the full array state
  after this step is applied'') and the \<open>stepIndex\<close> (``starting at 0'').
\<close>

record step =
  kind :: step_kind
  indices :: "nat list"
  arraySnapshot :: "int list"
  stepIndex :: nat

text \<open>
  Modelled from the spec: the comparator of the missing generators,
  ``\<open>shouldSwap(a,b)\<close> returns \<open>a>b\<close> for ascending, \<open>a<b\<close> for descending''.
\<close>

fun shouldSwap :: "direction \<Rightarrow> int \<Rightarrow> int \<Rightarrow> bool" where
  "shouldSwap Ascending a b = (a > b)"
| "shouldSwap Descending a b = (a < b)"

text \<open>
  The state a generator works on: its own copy of the array and the steps emitted
  so far.
\<close>

type_synonym gen_state = "int list \<times> step list"

text \<open>
  Modelled from the spec: the emission of one step by a missing generator. The
  step carries the array as it is now (``the full array state after this step is
  applied'') and the next step index (``monotonically increasing ..., starting at
  0'').
\<close>

definition emit :: "step_kind \<Rightarrow> nat list \<Rightarrow> gen_state \<Rightarrow> gen_state" where
  "emit k ix s =
     (fst s, snd s @ [\<lparr>kind = k, indices = ix, arraySnapshot = fst s, stepIndex = length (snd s)\<rparr>])"

text \<open>
  Modelled from the spec: a \<open>swap\<close> step of a missing generator: two positions
  are exchanged and the step is emitted.
\<close>

definition swap_at :: "nat \<Rightarrow> nat \<Rightarrow> gen_state \<Rightarrow> gen_state" where
  "swap_at i j s = emit KSwap [i, j] ((fst s)[i := fst s ! j, j := fst s ! i], snd s)"

text \<open>
  Modelled from the spec: a writing step of a missing generator (\<open>set\<close> or
  \<open>merge-write\<close>): one value is stored and the step of the given kind is emitted.
\<close>

definition write_at :: "step_kind \<Rightarrow> nat \<Rightarrow> int \<Rightarrow> gen_state \<Rightarrow> gen_state" where
  "write_at k i v s = emit k [i] ((fst s)[i := v], snd s)"

subsection \<open>Bubble sort\<close>

text \<open>
  Modelled from the spec: one pass of the missing Bubble generator, ``repeated
  adjacent comparisons; emit \<open>compare\<close> before each comparison, \<open>swap\<close> only when
  an out-of-order adjacent pair is found''. The pass runs over the given positions
  and reports whether it swapped.
\<close>

fun bubble_pass :: "direction \<Rightarrow> nat list \<Rightarrow> gen_state \<times> bool \<Rightarrow> gen_state \<times> bool" where
  "bubble_pass d [] sb = sb"
| "bubble_pass d (j # todo) (s, swapped) =
     (let s1 = emit KCompare [j, j + 1] s in
      if shouldSwap d (fst s1 ! j) (fst s1 ! (j + 1))
      then bubble_pass d todo (swap_at j (j + 1) s1, True)
      else bubble_pass d todo (s1, swapped))"

text \<open>
  Modelled from the spec: the missing Bubble generator: passes are repeated until
  ``one full pass with no swap'', after which the sequence ends.
\<close>

function bubble_sort :: "direction \<Rightarrow> gen_state \<Rightarrow> gen_state" where
  "bubble_sort d s =
     (case bubble_pass d [0..<length (fst s) - 1] (s, False) of
        (s', swapped) \<Rightarrow> if swapped then bubble_sort d s' else s')"
  by pat_completeness auto

subsection \<open>Insertion sort\<close>

text \<open>
  Modelled from the spec: the inner loop of the missing Insertion generator,
  ``shift left while comparator demands; emit \<open>compare\<close> for each shift-candidate
  check, \<open>set\<close> (not swap) for each shifted placement''. \<open>key\<close> is the element
  being inserted and the number is the position still free.
\<close>

fun insertion_shift :: "direction \<Rightarrow> int \<Rightarrow> nat \<Rightarrow> gen_state \<Rightarrow> gen_state" where
  "insertion_shift d key 0 s = write_at KSet 0 key s"
| "insertion_shift d key (Suc k) s =
     (let s1 = emit KCompare [k, Suc k] s in
      if shouldSwap d (fst s1 ! k) key
      then insertion_shift d key k (write_at KSet (Suc k) (fst s1 ! k) s1)
      else write_at KSet (Suc k) key s1)"

text \<open>
  Modelled from the spec: one round of the missing Insertion generator: the
  element at index \<open>i\<close> is inserted among those before it.
\<close>

definition insertion_step :: "direction \<Rightarrow> gen_state \<Rightarrow> nat \<Rightarrow> gen_state" where
  "insertion_step d s i = insertion_shift d (fst s ! i) i s"

text \<open>
  Modelled from the spec: the missing Insertion generator, ``for each index i from
  1..n-1''.
\<close>

definition insertion_sort :: "direction \<Rightarrow> gen_state \<Rightarrow> gen_state" where
  "insertion_sort d s = foldl (insertion_step d) s [1..<length (fst s)]"

subsection \<open>Selection sort\<close>

text \<open>
  Modelled from the spec: the scan of the missing Selection generator, ``scan
  remainder for extremum; emit \<open>compare\<close> per scan step''. \<open>m\<close> is the position
  of the extremum found so far.
\<close>

fun selection_scan :: "direction \<Rightarrow> nat list \<Rightarrow> nat \<Rightarrow> gen_state \<Rightarrow> nat \<times> gen_state" where
  "selection_scan d [] m s = (m, s)"
| "selection_scan d (j # todo) m s =
     (let s1 = emit KCompare [m, j] s in
      if shouldSwap d (fst s1 ! m) (fst s1 ! j)
      then selection_scan d todo j s1
      else selection_scan d todo m s1)"

text \<open>
  Modelled from the spec: one position of the missing Selection generator, ``one
  \<open>swap\<close> per position once extremum found (only if extremum differs from
  current)''.
\<close>

definition selection_step :: "direction \<Rightarrow> gen_state \<Rightarrow> nat \<Rightarrow> gen_state" where
  "selection_step d s i =
     (case selection_scan d [Suc i..<length (fst s)] i s of
        (m, s1) \<Rightarrow> if m \<noteq> i then swap_at i m s1 else s1)"

text \<open>
  Modelled from the spec: the missing Selection generator, ``for each position''.
\<close>

definition selection_sort :: "direction \<Rightarrow> gen_state \<Rightarrow> gen_state" where
  "selection_sort d s = foldl (selection_step d) s [0..<length (fst s)]"

subsection \<open>Quick sort\<close>

text \<open>
  Modelled from the spec: the partition loop of the missing Quick generator,
  ``\<open>compare\<close> per partition test, \<open>swap\<close> per partition exchange''. \<open>pv\<close> is the
  pivot, \<open>hp\<close> its position, and \<open>i\<close> the place of the next element that belongs
  before the pivot.
\<close>

fun partition_loop ::
  "direction \<Rightarrow> int \<Rightarrow> nat \<Rightarrow> nat list \<Rightarrow> nat \<Rightarrow> gen_state \<Rightarrow> nat \<times> gen_state" where
  "partition_loop d pv hp [] i s = (i, s)"
| "partition_loop d pv hp (j # todo) i s =
     (let s1 = emit KCompare [j, hp] s in
      if shouldSwap d pv (fst s1 ! j)
      then partition_loop d pv hp todo (Suc i) (swap_at i j s1)
      else partition_loop d pv hp todo i s1)"

text \<open>
  Modelled from the spec: the partition of the missing Quick generator, ``using
  last element as pivot; emit \<open>pivot\<close> when a pivot is chosen''. The range is
  \<open>lo\<close> to \<open>hi - 1\<close>; the result is the final position of the pivot.
\<close>

definition partition_range :: "direction \<Rightarrow> nat \<Rightarrow> nat \<Rightarrow> gen_state \<Rightarrow> nat \<times> gen_state" where
  "partition_range d lo hi s =
     (let s0 = emit KPivot [hi - 1] s in
      case partition_loop d (fst s0 ! (hi - 1)) (hi - 1) [lo..<hi - 1] lo s0 of
        (i, s1) \<Rightarrow> (i, swap_at i (hi - 1) s1))"

text \<open>
  Modelled from the spec: the recursion of the missing Quick generator,
  ``recursive partition ...; recursion order is left-subrange fully before
  right-subrange''. A range of fewer than two elements is left alone.
\<close>

function quick_sort_range :: "direction \<Rightarrow> nat \<Rightarrow> nat \<Rightarrow> gen_state \<Rightarrow> gen_state" where
  "quick_sort_range d lo hi s =
     (if hi - lo < 2 then s
      else (case partition_range d lo hi s of
              (p, s1) \<Rightarrow> quick_sort_range d (Suc p) hi (quick_sort_range d lo p s1)))"
  by pat_completeness auto

text \<open>
  Modelled from the spec: the missing Quick generator, on the whole array.
\<close>

definition quick_sort :: "direction \<Rightarrow> gen_state \<Rightarrow> gen_state" where
  "quick_sort d s = quick_sort_range d 0 (length (fst s)) s"

subsection \<open>Merge sort\<close>

text \<open>
  Modelled from the spec: the merging of two sorted runs by the missing Merge
  generator, with the comparator of the direction.
\<close>

fun merge_lists :: "direction \<Rightarrow> int list \<Rightarrow> int list \<Rightarrow> int list" where
  "merge_lists d [] ys = ys"
| "merge_lists d xs [] = xs"
| "merge_lists d (x # xs) (y # ys) =
     (if shouldSwap d x y then y # merge_lists d (x # xs) ys
      else x # merge_lists d xs (y # ys))"

text \<open>
  Modelled from the spec: the writing back of a merged run by the missing Merge
  generator, ``each written element emits \<open>merge-write\<close> with the target index and
  value; no \<open>swap\<close> is emitted''.
\<close>

fun write_all :: "nat \<Rightarrow> int list \<Rightarrow> gen_state \<Rightarrow> gen_state" where
  "write_all k [] s = s"
| "write_all k (v # vs) s = write_all (Suc k) vs (write_at KMergeWrite k v s)"

text \<open>
  Modelled from the spec: a range of the array of the missing Merge generator,
  from \<open>lo\<close> to \<open>hi - 1\<close>.
\<close>

definition segment :: "int list \<Rightarrow> nat \<Rightarrow> nat \<Rightarrow> int list" where
  "segment a lo hi = take (hi - lo) (drop lo a)"

text \<open>
  Modelled from the spec: one merge of the missing Merge generator: the ranges
  \<open>lo\<close> to \<open>mid - 1\<close> and \<open>mid\<close> to \<open>hi - 1\<close> are merged and written back.
\<close>

definition merge_ranges :: "direction \<Rightarrow> nat \<Rightarrow> nat \<Rightarrow> nat \<Rightarrow> gen_state \<Rightarrow> gen_state" where
  "merge_ranges d lo mid hi s =
     write_all lo (merge_lists d (segment (fst s) lo mid) (segment (fst s) mid hi)) s"

text \<open>
  Modelled from the spec: the recursion of the missing Merge generator, top-down
  (``bottom-up or top-down, either is acceptable''), with ``sibling ranges fully
  merge before their parent range''.
\<close>

function merge_sort_range :: "direction \<Rightarrow> nat \<Rightarrow> nat \<Rightarrow> gen_state \<Rightarrow> gen_state" where
  "merge_sort_range d lo hi s =
     (if hi - lo < 2 then s
      else merge_ranges d lo ((lo + hi) div 2) hi
             (merge_sort_range d ((lo + hi) div 2) hi
               (merge_sort_range d lo ((lo + hi) div 2) s)))"
  by pat_completeness auto

text \<open>
  Modelled from the spec: the missing Merge generator, on the whole array.
\<close>

definition merge_sort :: "direction \<Rightarrow> gen_state \<Rightarrow> gen_state" where
  "merge_sort d s = merge_sort_range d 0 (length (fst s)) s"

subsection \<open>Heap sort\<close>

text \<open>
  Modelled from the spec: the choice made at one level of the sift-down of the
  missing Heap generator (``max/min-heap (direction-dependent)''): in a heap of
  \<open>n\<close> elements, the position, among \<open>i\<close> and its children, of the element that
  belongs on top.
\<close>

definition sift_target :: "direction \<Rightarrow> int list \<Rightarrow> nat \<Rightarrow> nat \<Rightarrow> nat" where
  "sift_target d a n i =
     (let l = 2 * i + 1; r = 2 * i + 2;
          m = (if l < n \<and> shouldSwap d (a ! l) (a ! i) then l else i)
      in if r < n \<and> shouldSwap d (a ! r) (a ! m) then r else m)"

text \<open>
  Modelled from the spec: the \<open>compare\<close> steps that the missing Heap generator
  emits at one level of a sift-down (``with \<open>compare\<close>s inside it'').
\<close>

definition sift_compares :: "direction \<Rightarrow> nat \<Rightarrow> nat \<Rightarrow> gen_state \<Rightarrow> gen_state" where
  "sift_compares d n i s =
     (let l = 2 * i + 1; r = 2 * i + 2;
          m = (if l < n \<and> shouldSwap d (fst s ! l) (fst s ! i) then l else i);
          s1 = (if l < n then emit KCompare [l, i] s else s)
      in if r < n then emit KCompare [r, m] s1 else s1)"

text \<open>
  Modelled from the spec: the \<open>sift\<close> step of the missing Heap generator (``each
  sift operation emits \<open>sift\<close>''): the element at \<open>i\<close> moves down to its child
  \<open>m\<close>.
\<close>

definition sift_move :: "nat \<Rightarrow> nat \<Rightarrow> gen_state \<Rightarrow> gen_state" where
  "sift_move i m s = emit KSift [i, m] ((fst s)[i := fst s ! m, m := fst s ! i], snd s)"

text \<open>
  Modelled from the spec: the sift-down of the missing Heap generator, repeated
  level by level until the element rests.
\<close>

function sift_down :: "direction \<Rightarrow> nat \<Rightarrow> nat \<Rightarrow> gen_state \<Rightarrow> gen_state" where
  "sift_down d n i s =
     (if sift_target d (fst s) n i = i then sift_compares d n i s
      else sift_down d n (sift_target d (fst s) n i)
             (sift_move i (sift_target d (fst s) n i) (sift_compares d n i s)))"
  by pat_completeness auto

text \<open>
  Modelled from the spec: the first phase of the missing Heap generator, ``build
  max/min-heap ... via sift-down from the last parent to the root''.
\<close>

definition build_heap :: "direction \<Rightarrow> gen_state \<Rightarrow> gen_state" where
  "build_heap d s =
     foldl (\<lambda>s i. sift_down d (length (fst s)) i s) s (rev [0..<length (fst s) div 2])"

text \<open>
  Modelled from the spec: one extraction of the missing Heap generator, ``extract
  root and sift-down the reduced heap; ... extraction emits \<open>swap\<close>''. \<open>e\<close> is the
  last position of the heap, which the root is moved to.
\<close>

definition extract_step :: "direction \<Rightarrow> gen_state \<Rightarrow> nat \<Rightarrow> gen_state" where
  "extract_step d s e = sift_down d e 0 (swap_at 0 e s)"

text \<open>
  Modelled from the spec: the missing Heap generator: the heap is built, ``then
  repeatedly'' the root is extracted.
\<close>

definition heap_sort :: "direction \<Rightarrow> gen_state \<Rightarrow> gen_state" where
  "heap_sort d s = foldl (extract_step d) (build_heap d s) (rev [1..<length (fst s)])"

subsection \<open>The generated sequence and its replay\<close>

text \<open>
  Modelled from the spec: the choice of the missing generator by the algorithm
  (``six implementations, one per algorithm'').
\<close>

definition run_algorithm :: "algorithm \<Rightarrow> direction \<Rightarrow> gen_state \<Rightarrow> gen_state" where
  "run_algorithm alg d s =
     (case alg of
        Bubble \<Rightarrow> bubble_sort d s
      | Insertion \<Rightarrow> insertion_sort d s
      | Selection \<Rightarrow> selection_sort d s
      | Quick \<Rightarrow> quick_sort d s
      | Merge \<Rightarrow> merge_sort d s
      | Heap \<Rightarrow> heap_sort d s)"

text \<open>
  Modelled from the spec: \<open>generate(initial, direction)\<close> of the missing
  visualiser: the generator runs on its own copy of the array, and ``every
  generator's final emitted \<open>Step\<close> has \<open>kind = done\<close>'', with the array as the
  generator left it.
\<close>

definition generate :: "algorithm \<Rightarrow> int list \<Rightarrow> direction \<Rightarrow> step list" where
  "generate alg initial d = snd (emit KDone [] (run_algorithm alg d (initial, [])))"

text \<open>
  Modelled from the spec: what applying a step means in the missing engine. A
  step carries ``the full array state after this step is applied'', so applying it
  to an array gives that snapshot.
\<close>

definition apply_step :: "int list \<Rightarrow> step \<Rightarrow> int list" where
  "apply_step a st = arraySnapshot st"

text \<open>
  Modelled from the spec: ``applying all \<open>Step\<close>s in order, starting from the
  generator's initial array'', in the missing engine.
\<close>

definition apply_steps :: "int list \<Rightarrow> step list \<Rightarrow> int list" where
  "apply_steps initial steps = foldl apply_step initial steps"

text \<open>
  Modelled from the spec: a valid \<open>NumberList\<close> of the missing engine, ``length
  1-25, each value in [1,1000]''.
\<close>

definition valid_number_list :: "int list \<Rightarrow> bool" where
  "valid_number_list xs \<longleftrightarrow>
     1 \<le> length xs \<and> length xs \<le> 25 \<and> list_all (\<lambda>v. 1 \<le> v \<and> v \<le> 1000) xs"

text \<open>
  Modelled from the spec: an array of the missing engine that is ``sorted
  (ascending or descending per requested direction)''.
\<close>

definition sorted_per :: "direction \<Rightarrow> int list \<Rightarrow> bool" where
  "sorted_per d xs = (case d of Ascending \<Rightarrow> sorted xs | Descending \<Rightarrow> sorted (rev xs))"

subsection \<open>Notions for the proofs about the generators\<close>

text \<open>
  Two values are in order when the comparator does not ask to swap them.
\<close>

definition inorder :: "direction \<Rightarrow> int \<Rightarrow> int \<Rightarrow> bool" where
  "inorder d a b = (\<not> shouldSwap d a b)"

text \<open>
  The number of inversions of an array, the measure by which Bubble sort ends.
\<close>

fun inversions :: "direction \<Rightarrow> int list \<Rightarrow> nat" where
  "inversions d [] = 0"
| "inversions d (x # xs) = length (filter (shouldSwap d x) xs) + inversions d xs"

text \<open>
  An array that is in order up to position \<open>i\<close>, the free position \<open>j\<close> of an
  insertion apart.
\<close>

definition sorted_but :: "direction \<Rightarrow> int list \<Rightarrow> nat \<Rightarrow> nat \<Rightarrow> bool" where
  "sorted_but d a j i \<longleftrightarrow>
     (\<forall>p q. p < q \<and> q \<le> i \<and> p \<noteq> j \<and> q \<noteq> j \<longrightarrow> inorder d (a ! p) (a ! q))"

text \<open>
  The heap condition at node \<open>i\<close> of a heap of \<open>n\<close> elements, and the invariant of
  the extraction loop: the first \<open>m\<close> elements are a heap, and every element from
  \<open>m\<close> on is in order with all elements before it.
\<close>

definition heap_at :: "direction \<Rightarrow> int list \<Rightarrow> nat \<Rightarrow> nat \<Rightarrow> bool" where
  "heap_at d a n i \<longleftrightarrow>
     (2 * i + 1 < n \<longrightarrow> inorder d (a ! (2 * i + 1)) (a ! i))
     \<and> (2 * i + 2 < n \<longrightarrow> inorder d (a ! (2 * i + 2)) (a ! i))"

definition heap_inv :: "direction \<Rightarrow> nat \<Rightarrow> nat \<Rightarrow> int list \<Rightarrow> bool" where
  "heap_inv d n m a \<longleftrightarrow>
     length a = n \<and> (\<forall>j. heap_at d a m j)
     \<and> (\<forall>p q. p < q \<and> m \<le> q \<and> q < n \<longrightarrow> inorder d (a ! p) (a ! q))"

section \<open>Evaluation and auxiliary facts\<close>

lemmas tokens_eval =
  tokens_def split_ws_def replace_commas_def trim_def trimStart_def trimEnd_def
  isWhiteSpace_def js_def

lemmas token_eval =
  List.map_filter_simps token_error_def token_value_def parseInt_def trimStart_def
  isWhiteSpace_def isRadixDigit_def digitValue_def radixValue_def numberToString_def js_def

lemmas eval_defs =
  validateNumberInput_def js_def trim_def trimStart_def trimEnd_def isWhiteSpace_def
  tokens_def split_ws_def replace_commas_def parseInt_def isRadixDigit_def digitValue_def
  radixValue_def numberToString_def slice_def

subsection \<open>Trimming and tokens\<close>

lemma trim_empty_iff: "trim s = [] \<longleftrightarrow> list_all isWhiteSpace s"
proof (cases "dropWhile isWhiteSpace s")
  case Nil
  then have "list_all isWhiteSpace s"
    by (simp add: dropWhile_eq_Nil_conv list_all_iff)
  moreover from Nil have "trim s = []"
    by (auto simp: trim_def trimEnd_def trimStart_def dest: set_dropWhileD)
  ultimately show ?thesis by simp
next
  case (Cons c cs)
  then have c: "\<not> isWhiteSpace c"
    by (metis hd_dropWhile list.sel(1) list.distinct(1))
  have "dropWhile isWhiteSpace (rev (c # cs)) \<noteq> []"
    using c by (simp add: dropWhile_eq_Nil_conv)
  moreover have "\<not> list_all isWhiteSpace s"
  proof
    assume "list_all isWhiteSpace s"
    then have "dropWhile isWhiteSpace s = []"
      by (simp add: dropWhile_eq_Nil_conv list_all_iff)
    with Cons show False by simp
  qed
  ultimately show ?thesis
    using Cons by (simp add: trim_def trimEnd_def trimStart_def)
qed

lemma fields_not_Nil: "pieces D s \<noteq> []"
  by (induction s) (auto split: list.splits)

lemma nonempty_fields_dropWhile:
  "(\<And>c. Q c \<Longrightarrow> D c) \<Longrightarrow>
   filter (\<lambda>t. t \<noteq> []) (pieces D (dropWhile Q s)) = filter (\<lambda>t. t \<noteq> []) (pieces D s)"
  by (induction s) auto

lemma fields_all_delims:
  "\<forall>c\<in>set s. D c \<Longrightarrow> pieces D s = replicate (Suc (length s)) []"
  by (induction s) auto

lemma fields_append_delims:
  "\<forall>c\<in>set ys. D c \<Longrightarrow> pieces D (xs @ ys) = pieces D xs @ replicate (length ys) []"
proof (induction xs)
  case Nil
  then show ?case
    by (simp add: fields_all_delims replicate_append_same)
next
  case (Cons x xs)
  then show ?case
    by (cases "pieces D xs") (auto simp: fields_not_Nil)
qed

lemma nonempty_fields_append_delims:
  "\<forall>c\<in>set ys. D c \<Longrightarrow>
   filter (\<lambda>t. t \<noteq> []) (pieces D (xs @ ys)) = filter (\<lambda>t. t \<noteq> []) (pieces D xs)"
  by (simp add: fields_append_delims)

lemma nonempty_split_loop:
  "filter (\<lambda>t. t \<noteq> []) (split_loop cur s) =
   filter (\<lambda>t. t \<noteq> [])
     (case pieces isWhiteSpace s of f # fs \<Rightarrow> (cur @ f) # fs | [] \<Rightarrow> [])"
proof (induction cur s rule: split_loop.induct)
  case (1 cur)
  show ?case by simp
next
  case (2 cur c cs)
  show ?case
  proof (cases "isWhiteSpace c")
    case True
    have "filter (\<lambda>t. t \<noteq> []) (split_loop [] (dropWhile isWhiteSpace cs)) =
          filter (\<lambda>t. t \<noteq> []) (pieces isWhiteSpace (dropWhile isWhiteSpace cs))"
      using 2(1) [OF True] fields_not_Nil [of isWhiteSpace "dropWhile isWhiteSpace cs"]
      by (cases "pieces isWhiteSpace (dropWhile isWhiteSpace cs)") auto
    also have "\<dots> = filter (\<lambda>t. t \<noteq> []) (pieces isWhiteSpace cs)"
      by (rule nonempty_fields_dropWhile) simp
    finally show ?thesis using True by simp
  next
    case False
    then show ?thesis
      using 2(2) [OF False] fields_not_Nil [of isWhiteSpace cs]
      by (cases "pieces isWhiteSpace cs") auto
  qed
qed

lemma fields_replace_commas:
  "pieces isWhiteSpace (replace_commas s) = pieces isDelimiter s"
proof (induction s)
  case Nil
  show ?case by (simp add: replace_commas_def)
next
  case (Cons c cs)
  have ws: "isWhiteSpace 0x20"
    by (simp add: isWhiteSpace_def)
  have nc: "\<not> isWhiteSpace 0x2C"
    by (simp add: isWhiteSpace_def)
  from Cons have IH:
    "pieces isWhiteSpace (map (\<lambda>c. if c = 0x2C then 0x20 else c) cs) = pieces isDelimiter cs"
    by (simp add: replace_commas_def)
  have d: "isDelimiter c \<longleftrightarrow> c = 0x2C \<or> isWhiteSpace c"
    by (simp add: isDelimiter_def)
  show ?case
    using ws nc IH d by (auto simp: replace_commas_def)
qed

lemma nonempty_fields_trim:
  assumes "\<And>c. isWhiteSpace c \<Longrightarrow> D c"
  shows "filter (\<lambda>t. t \<noteq> []) (pieces D (trim s)) = filter (\<lambda>t. t \<noteq> []) (pieces D s)"
proof -
  let ?u = "dropWhile isWhiteSpace s"
  have u: "?u = trim s @ rev (takeWhile isWhiteSpace (rev ?u))"
    unfolding trim_def trimEnd_def trimStart_def
    by (metis rev_append rev_rev_ident takeWhile_dropWhile_id)
  have "\<forall>c\<in>set (rev (takeWhile isWhiteSpace (rev ?u))). D c"
    using assms by (auto dest: set_takeWhileD)
  then have "filter (\<lambda>t. t \<noteq> []) (pieces D (trim s @ rev (takeWhile isWhiteSpace (rev ?u)))) =
             filter (\<lambda>t. t \<noteq> []) (pieces D (trim s))"
    by (rule nonempty_fields_append_delims)
  with u have "filter (\<lambda>t. t \<noteq> []) (pieces D (trim s)) = filter (\<lambda>t. t \<noteq> []) (pieces D ?u)"
    by simp
  also have "\<dots> = filter (\<lambda>t. t \<noteq> []) (pieces D s)"
    by (rule nonempty_fields_dropWhile) (rule assms)
  finally show ?thesis .
qed

lemma tokens_Nil: "tokens [] = []"
  by (simp add: tokens_def split_ws_def replace_commas_def)

lemma tokens_trim: "tokens (trim input) = spec_tokens input"
proof -
  have "tokens (trim input) =
        filter (\<lambda>t. t \<noteq> []) (pieces isWhiteSpace (replace_commas (trim input)))"
    using nonempty_split_loop [of "[]" "replace_commas (trim input)"]
      fields_not_Nil [of isWhiteSpace "replace_commas (trim input)"]
    by (cases "pieces isWhiteSpace (replace_commas (trim input))")
       (auto simp: tokens_def split_ws_def)
  also have "\<dots> = filter (\<lambda>t. t \<noteq> []) (pieces isDelimiter (trim input))"
    by (simp add: fields_replace_commas)
  also have "\<dots> = filter (\<lambda>t. t \<noteq> []) (pieces isDelimiter input)"
    by (rule nonempty_fields_trim) (simp add: isDelimiter_def)
  finally show ?thesis
    by (simp add: spec_tokens_def)
qed

subsection \<open>The loop and the three results\<close>

lemma for_loop_map_filter:
  "for_loop big ts vs es =
     (vs @ List.map_filter token_value ts, es @ List.map_filter (token_error big) ts)"
  by (induction ts arbitrary: vs es)
     (auto simp: List.map_filter_simps token_value_def token_error_def split: option.splits)

lemma token_value_range: "token_value t = Some n \<Longrightarrow> 1 \<le> n \<and> n \<le> 1000"
  by (auto simp: token_value_def split: option.splits if_splits)

lemma map_filter_range:
  "n \<in> set (List.map_filter token_value ts) \<Longrightarrow> 1 \<le> n \<and> n \<le> 1000"
  by (auto simp: List.map_filter_def dest: token_value_range)

lemma numberToString_small:
  "0 \<le> n \<Longrightarrow> n \<le> 1000 \<Longrightarrow> numberToString big n = natToString (nat n)"
  by (simp add: numberToString_def)

lemma map_numberToString_valid:
  assumes "set xs \<subseteq> set (List.map_filter token_value ts)"
  shows "map (numberToString big) xs = map (\<lambda>n. natToString (nat n)) xs"
proof (rule map_cong [OF refl])
  fix n assume "n \<in> set xs"
  with assms have "n \<in> set (List.map_filter token_value ts)" by blast
  then have "1 \<le> n \<and> n \<le> 1000" by (rule map_filter_range)
  then show "numberToString big n = natToString (nat n)"
    by (intro numberToString_small) linarith+
qed

lemma slice_take: "0 \<le> k \<Longrightarrow> slice 0 (Some k) xs = take (nat k) xs"
  by (auto simp: slice_def min_def Let_def)

lemma slice_last: "0 < k \<Longrightarrow> slice (- k) None xs = rev (take (nat k) (rev xs))"
proof -
  assume k: "0 < k"
  have "nat (max (int (length xs) - k) 0) = length xs - nat k"
    using k by (auto simp: max_def)
  then show ?thesis
    using k by (simp add: slice_def take_rev)
qed

lemma join_member:
  "m \<in> set ms \<Longrightarrow> \<exists>pre post. join sep ms = pre @ m @ post"
proof (induction sep ms rule: join.induct)
  case (1 sep)
  then show ?case by simp
next
  case (2 sep x)
  then show ?case by (auto intro: exI [of _ "[]"])
next
  case (3 sep x y ys)
  show ?case
  proof (cases "m = x")
    case True
    then show ?thesis by (auto intro: exI [of _ "[]"])
  next
    case False
    with 3 obtain pre post where "join sep (y # ys) = pre @ m @ post" by auto
    then have "join sep (x # y # ys) = (x @ sep @ pre) @ m @ post" by simp
    then show ?thesis by blast
  qed
qed

lemma validateNumberInput_no_errors:
  assumes "trim input \<noteq> []"
    and "List.map_filter (token_error big) (tokens (trim input)) = []"
  shows "validateNumberInput big input =
     (if length (List.map_filter token_value (tokens (trim input))) > 25
      then \<lparr>valid = True,
            numbers = Array (take 25 (List.map_filter token_value (tokens (trim input)))),
            message = Some (js ''Too many numbers. Using first 25: '' @
              join (js '', '') (map (\<lambda>n. natToString (nat n))
                (take 25 (List.map_filter token_value (tokens (trim input)))))),
            error = None\<rparr>
      else \<lparr>valid = True,
            numbers = Array (List.map_filter token_value (tokens (trim input))),
            message = Some (js ''Valid numbers: '' @
              join (js '', '') (map (\<lambda>n. natToString (nat n))
                (List.map_filter token_value (tokens (trim input))))),
            error = None\<rparr>)"
proof -
  let ?vs = "List.map_filter token_value (tokens (trim input))"
  have loop: "for_loop big (tokens (trim input)) [] [] = (?vs, [])"
    using assms(2) by (simp add: for_loop_map_filter)
  have a: "map (numberToString big) ?vs = map (\<lambda>n. natToString (nat n)) ?vs"
    by (rule map_numberToString_valid [OF subset_refl])
  have b: "map (numberToString big) (take 25 ?vs) = map (\<lambda>n. natToString (nat n)) (take 25 ?vs)"
    by (rule map_numberToString_valid [OF set_take_subset])
  have c: "slice 0 (Some 25) ?vs = take 25 ?vs"
    using slice_take [of 25 ?vs] by simp
  show ?thesis
    unfolding validateNumberInput_def Let_def loop prod.case c a b
    using assms(1) by simp
qed

lemma validateNumberInput_some_error:
  assumes "trim input \<noteq> []"
    and "List.map_filter (token_error big) (tokens (trim input)) \<noteq> []"
  shows "error (validateNumberInput big input) =
           Some (join (js '', '') (List.map_filter (token_error big) (tokens (trim input))))
         \<and> numbers (validateNumberInput big input) = Undefined
         \<and> \<not> valid (validateNumberInput big input)"
  using assms by (simp add: validateNumberInput_def for_loop_map_filter)

subsection \<open>The function in a store\<close>

lemma for_loop_store_eq:
  assumes "a1 < length h" and "a2 < length h" and "a1 \<noteq> a2"
    and "h ! a1 = Numbers vs" and "h ! a2 = Strings es"
  shows "for_loop_store big ts a1 a2 h =
           h[a1 := Numbers (fst (for_loop big ts vs es)),
             a2 := Strings (snd (for_loop big ts vs es))]"
  using assms
proof (induction ts arbitrary: h vs es)
  case Nil
  then show ?case
    by (auto simp: list_eq_iff_nth_eq nth_list_update)
next
  case (Cons t ts)
  have str: "for_loop_store big ts a1 a2 (push_string a2 m h) =
      h[a1 := Numbers (fst (for_loop big ts vs (es @ [m]))),
        a2 := Strings (snd (for_loop big ts vs (es @ [m])))]" for m
  proof -
    let ?h = "h[a2 := Strings (es @ [m])]"
    have p: "push_string a2 m h = ?h"
      using Cons.prems by (simp add: push_string_def)
    have "for_loop_store big ts a1 a2 ?h =
        ?h[a1 := Numbers (fst (for_loop big ts vs (es @ [m]))),
           a2 := Strings (snd (for_loop big ts vs (es @ [m])))]"
      using Cons.prems by (intro Cons.IH) simp_all
    also have "\<dots> = h[a1 := Numbers (fst (for_loop big ts vs (es @ [m]))),
           a2 := Strings (snd (for_loop big ts vs (es @ [m])))]"
      using Cons.prems(1-3) by (auto simp: list_eq_iff_nth_eq nth_list_update)
    finally show ?thesis by (simp only: p)
  qed
  have num: "for_loop_store big ts a1 a2 (push_number a1 v h) =
      h[a1 := Numbers (fst (for_loop big ts (vs @ [v]) es)),
        a2 := Strings (snd (for_loop big ts (vs @ [v]) es))]" for v
  proof -
    let ?h = "h[a1 := Numbers (vs @ [v])]"
    have p: "push_number a1 v h = ?h"
      using Cons.prems by (simp add: push_number_def)
    have "for_loop_store big ts a1 a2 ?h =
        ?h[a1 := Numbers (fst (for_loop big ts (vs @ [v]) es)),
           a2 := Strings (snd (for_loop big ts (vs @ [v]) es))]"
      using Cons.prems by (intro Cons.IH) simp_all
    also have "\<dots> = h[a1 := Numbers (fst (for_loop big ts (vs @ [v]) es)),
           a2 := Strings (snd (for_loop big ts (vs @ [v]) es))]"
      by (auto simp: list_eq_iff_nth_eq nth_list_update)
    finally show ?thesis by (simp only: p)
  qed
  show ?case
    by (simp add: str num split: option.splits)
qed

lemma validateNumberInput_store_unfold:
  assumes "trim input \<noteq> []"
  obtains h3 where
    "for_loop_store big (tokens (trim input)) (length h) (Suc (length h))
       (h @ [Numbers [], Strings []]) = h3"
    and "numbers_of h3 (length h) = fst (for_loop big (tokens (trim input)) [] [])"
    and "strings_of h3 (Suc (length h)) = snd (for_loop big (tokens (trim input)) [] [])"
    and "take (length h) h3 = h"
proof -
  let ?h2 = "h @ [Numbers [], Strings []]"
  let ?a1 = "length h" and ?a2 = "Suc (length h)"
  let ?l = "for_loop big (tokens (trim input)) [] []"
  let ?h3 = "?h2[?a1 := Numbers (fst ?l), ?a2 := Strings (snd ?l)]"
  have "for_loop_store big (tokens (trim input)) ?a1 ?a2 ?h2 = ?h3"
    by (rule for_loop_store_eq) (simp_all add: nth_append)
  moreover have "numbers_of ?h3 ?a1 = fst ?l"
    by (simp add: numbers_of_def nth_list_update)
  moreover have "strings_of ?h3 ?a2 = snd ?l"
    by (simp add: strings_of_def)
  moreover have "take (length h) ?h3 = h"
    by simp
  ultimately show ?thesis
    by (rule that)
qed

lemma validateNumberInput_store_result:
  "fst (validateNumberInput_store big input h) = validateNumberInput big input"
proof (cases "trim input = []")
  case True
  then show ?thesis
    by (simp add: validateNumberInput_store_def validateNumberInput_def)
next
  case False
  from validateNumberInput_store_unfold [OF False, of big h]
  obtain h3 where loop:
    "for_loop_store big (tokens (trim input)) (length h) (Suc (length h))
       (h @ [Numbers [], Strings []]) = h3"
    and n: "numbers_of h3 (length h) = fst (for_loop big (tokens (trim input)) [] [])"
    and s: "strings_of h3 (Suc (length h)) = snd (for_loop big (tokens (trim input)) [] [])"
    by blast
  show ?thesis
    using False
    by (cases "for_loop big (tokens (trim input)) [] []")
       (simp add: validateNumberInput_store_def validateNumberInput_def new_array_def
          Let_def loop n s)
qed

lemma validateNumberInput_store_frame:
  "take (length h) (snd (validateNumberInput_store big input h)) = h"
proof (cases "trim input = []")
  case True
  then show ?thesis
    by (simp add: validateNumberInput_store_def)
next
  case False
  from validateNumberInput_store_unfold [OF False, of big h]
  obtain h3 where loop:
    "for_loop_store big (tokens (trim input)) (length h) (Suc (length h))
       (h @ [Numbers [], Strings []]) = h3"
    and t: "take (length h) h3 = h"
    by blast
  show ?thesis
    using False
    by (simp add: validateNumberInput_store_def new_array_def Let_def loop t)
qed

section \<open>Properties of the validator and of the formatter\<close>

text \<open>
  C2. An input that is empty or holds white space only is accepted: the result has
  \<open>valid: true\<close>, \<open>numbers: null\<close> and the informational message; the empty string
  is one such input.
\<close>

theorem validateNumberInput_blank:
  assumes "\<forall>c\<in>set input. isWhiteSpace c"
  shows "validateNumberInput big input =
           \<lparr>valid = True, numbers = Null,
            message = Some (js ''Empty input - will use random numbers''), error = None\<rparr>"
proof -
  from assms have "trim input = []"
    by (simp add: trim_empty_iff list_all_iff)
  then show ?thesis
    by (simp add: validateNumberInput_def)
qed

theorem validateNumberInput_blank_witness:
  "validateNumberInput (\<lambda>n. []) [] =
     \<lparr>valid = True, numbers = Null,
      message = Some (js ''Empty input - will use random numbers''), error = None\<rparr>
   \<and> validateNumberInput (\<lambda>n. []) [0x20, 0x09, 0x0A, 0xA0] =
     \<lparr>valid = True, numbers = Null,
      message = Some (js ''Empty input - will use random numbers''), error = None\<rparr>"
  using validateNumberInput_blank [of "[]" "\<lambda>n. []"]
    validateNumberInput_blank [of "[0x20, 0x09, 0x0A, 0xA0]" "\<lambda>n. []"]
  by (simp add: isWhiteSpace_def)

text \<open>
  C3. The validator works on the non-empty pieces of its input between commas and
  white space characters, so delimiters may be mixed and repeated. The token list of
  the code is that list of pieces, and the result of the function is determined by
  it: an input of white space only gives the empty-input result; otherwise, if some
  piece is refused the result is the error that joins the messages of the refused
  pieces, and if none is refused the numbers are the values of the pieces, in order
  (the first 25 when there are more). \<open>"5, 10  15"\<close> gives the numbers 5, 10 and 15.
\<close>

theorem tokens_split_on_delimiters:
  "tokens (trim input) = spec_tokens input
   \<and> validateNumberInput big input =
       (if list_all isWhiteSpace input
        then \<lparr>valid = True, numbers = Null,
              message = Some (js ''Empty input - will use random numbers''), error = None\<rparr>
        else if List.map_filter (token_error big) (spec_tokens input) \<noteq> []
        then \<lparr>valid = False, numbers = Undefined, message = None,
              error = Some (join (js '', '')
                (List.map_filter (token_error big) (spec_tokens input)))\<rparr>
        else if 25 < length (List.map_filter token_value (spec_tokens input))
        then \<lparr>valid = True,
              numbers = Array (take 25 (List.map_filter token_value (spec_tokens input))),
              message = Some (js ''Too many numbers. Using first 25: '' @
                join (js '', '') (map (\<lambda>n. natToString (nat n))
                  (take 25 (List.map_filter token_value (spec_tokens input))))),
              error = None\<rparr>
        else \<lparr>valid = True,
              numbers = Array (List.map_filter token_value (spec_tokens input)),
              message = Some (js ''Valid numbers: '' @
                join (js '', '') (map (\<lambda>n. natToString (nat n))
                  (List.map_filter token_value (spec_tokens input)))),
              error = None\<rparr>)
   \<and> validateNumberInput big (js ''5, 10  15'') =
       \<lparr>valid = True, numbers = Array [5, 10, 15],
        message = Some (js ''Valid numbers: 5, 10, 15''), error = None\<rparr>"
proof (intro conjI)
  show t: "tokens (trim input) = spec_tokens input"
    by (rule tokens_trim)
  show "validateNumberInput big (js ''5, 10  15'') =
       \<lparr>valid = True, numbers = Array [5, 10, 15],
        message = Some (js ''Valid numbers: 5, 10, 15''), error = None\<rparr>"
    by (simp add: eval_defs)
  show "validateNumberInput big input =
       (if list_all isWhiteSpace input
        then \<lparr>valid = True, numbers = Null,
              message = Some (js ''Empty input - will use random numbers''), error = None\<rparr>
        else if List.map_filter (token_error big) (spec_tokens input) \<noteq> []
        then \<lparr>valid = False, numbers = Undefined, message = None,
              error = Some (join (js '', '')
                (List.map_filter (token_error big) (spec_tokens input)))\<rparr>
        else if 25 < length (List.map_filter token_value (spec_tokens input))
        then \<lparr>valid = True,
              numbers = Array (take 25 (List.map_filter token_value (spec_tokens input))),
              message = Some (js ''Too many numbers. Using first 25: '' @
                join (js '', '') (map (\<lambda>n. natToString (nat n))
                  (take 25 (List.map_filter token_value (spec_tokens input))))),
              error = None\<rparr>
        else \<lparr>valid = True,
              numbers = Array (List.map_filter token_value (spec_tokens input)),
              message = Some (js ''Valid numbers: '' @
                join (js '', '') (map (\<lambda>n. natToString (nat n))
                  (List.map_filter token_value (spec_tokens input)))),
              error = None\<rparr>)"
  proof (cases "trim input = []")
    case True
    then show ?thesis
      by (simp add: validateNumberInput_def trim_empty_iff)
  next
    case False
    then have ws: "\<not> list_all isWhiteSpace input"
      by (simp add: trim_empty_iff)
    show ?thesis
    proof (cases "List.map_filter (token_error big) (tokens (trim input)) = []")
      case True
      note r = validateNumberInput_no_errors [OF False True, unfolded t]
      from True [unfolded t] ws show ?thesis
        by (simp add: r)
    next
      case e: False
      have "validateNumberInput big input =
          \<lparr>valid = False, numbers = Undefined, message = None,
           error = Some (join (js '', '')
             (List.map_filter (token_error big) (tokens (trim input))))\<rparr>"
        using False e by (simp add: validateNumberInput_def for_loop_map_filter)
      note r = this [unfolded t]
      from e [unfolded t] ws show ?thesis
        by (simp add: r)
    qed
  qed
qed

theorem tokens_split_on_delimiters_witness:
  "tokens (trim (js '' 7,8 ,, 9x '')) = [js ''7'', js ''8'', js ''9x'']
   \<and> spec_tokens (js '' 7,8 ,, 9x '') = [js ''7'', js ''8'', js ''9x'']
   \<and> validateNumberInput (\<lambda>n. []) (js '' 7,8 ,, 9x '') =
       \<lparr>valid = True, numbers = Array [7, 8, 9],
        message = Some (js ''Valid numbers: 7, 8, 9''), error = None\<rparr>"
proof -
  have s: "spec_tokens (js '' 7,8 ,, 9x '') = [js ''7'', js ''8'', js ''9x'']"
    by (simp add: spec_tokens_def isDelimiter_def isWhiteSpace_def js_def)
  have v: "validateNumberInput (\<lambda>n. []) (js '' 7,8 ,, 9x '') =
       \<lparr>valid = True, numbers = Array [7, 8, 9],
        message = Some (js ''Valid numbers: 7, 8, 9''), error = None\<rparr>"
    by (simp add: eval_defs)
  show ?thesis
    using tokens_split_on_delimiters [of "js '' 7,8 ,, 9x ''" "\<lambda>n. []"]
    by (simp only: s v simp_thms)
qed

text \<open>
  C4. The claim is that every token that is not a base-10 integer is reported as
  \<open>"<token>" is not a number\<close>. The code reads a token with \<open>parseInt\<close>, which
  stops at the first code unit that is no digit and reads a \<open>0x\<close> prefix as
  hexadecimal: the tokens \<open>12abc\<close> and \<open>0x1F\<close> are accepted as 12 and 31, and no
  error is reported.
\<close>

theorem numeric_prefix_accepted:
  "validateNumberInput big (js ''12abc 0x1F 5'') =
     \<lparr>valid = True, numbers = Array [12, 31, 5],
      message = Some (js ''Valid numbers: 12, 31, 5''), error = None\<rparr>"
proof -
  have toks: "tokens (trim (js ''12abc 0x1F 5'')) = [js ''12abc'', js ''0x1F'', js ''5'']"
    by (simp add: tokens_eval)
  have "parseInt (js ''12abc'') = Some 12" and "parseInt (js ''0x1F'') = Some 31"
    and "parseInt (js ''5'') = Some 5"
    by (simp_all add: token_eval)
  then have loop:
    "for_loop big [js ''12abc'', js ''0x1F'', js ''5''] [] [] = ([12, 31, 5], [])"
    by simp
  have "trim (js ''12abc 0x1F 5'') \<noteq> []"
    by (simp add: tokens_eval)
  then show ?thesis
    unfolding validateNumberInput_def Let_def toks loop
    by (simp add: numberToString_def slice_def js_def)
qed

text \<open>
  C5. A token that \<open>parseInt\<close> reads as an integer \<open>n\<close> outside 1 to 1000 puts the
  message \<open><n> is out of range (1-1000)\<close> into the error list; the result is the
  error that joins that list, so the message is a part of the error string;
  \<open>"0 1001"\<close> reports both values.
\<close>

theorem out_of_range_collected:
  assumes "t \<in> set (tokens (trim input))" and "parseInt t = Some n" and "n < 1 \<or> 1000 < n"
  shows "numberToString big n @ js '' is out of range (1-1000)''
           \<in> set (snd (for_loop big (tokens (trim input)) [] []))
    \<and> validateNumberInput big input =
        \<lparr>valid = False, numbers = Undefined, message = None,
         error = Some (join (js '', '') (snd (for_loop big (tokens (trim input)) [] [])))\<rparr>
    \<and> (\<exists>pre post. join (js '', '') (snd (for_loop big (tokens (trim input)) [] [])) =
          pre @ numberToString big n @ js '' is out of range (1-1000)'' @ post)
    \<and> validateNumberInput big (js ''0 1001'') =
        \<lparr>valid = False, numbers = Undefined, message = None,
         error = Some (js ''0 is out of range (1-1000), 1001 is out of range (1-1000)'')\<rparr>"
proof -
  let ?msg = "numberToString big n @ js '' is out of range (1-1000)''"
  let ?errors = "snd (for_loop big (tokens (trim input)) [] [])"
  have "token_error big t = Some ?msg"
    using assms(2,3) by (auto simp: token_error_def)
  with assms(1) have mem: "?msg \<in> set ?errors"
    by (force simp: for_loop_map_filter List.map_filter_def)
  from assms(1) have "trim input \<noteq> []"
    by (auto simp: tokens_Nil)
  moreover from mem have "?errors \<noteq> []" by auto
  ultimately have res: "validateNumberInput big input =
        \<lparr>valid = False, numbers = Undefined, message = None,
         error = Some (join (js '', '') ?errors)\<rparr>"
    by (cases "for_loop big (tokens (trim input)) [] []") (simp add: validateNumberInput_def)
  have ex: "validateNumberInput big (js ''0 1001'') =
        \<lparr>valid = False, numbers = Undefined, message = None,
         error = Some (js ''0 is out of range (1-1000), 1001 is out of range (1-1000)'')\<rparr>"
    by (simp add: eval_defs)
  from mem have "\<exists>pre post. join (js '', '') ?errors = pre @ ?msg @ post"
    by (rule join_member)
  then have sub: "\<exists>pre post. join (js '', '') ?errors =
      pre @ numberToString big n @ js '' is out of range (1-1000)'' @ post"
    by simp
  from mem res sub ex show ?thesis by blast
qed

theorem out_of_range_collected_witness:
  "js ''1001 is out of range (1-1000)''
     \<in> set (snd (for_loop (\<lambda>n. []) (tokens (trim (js ''7, 1001 -3''))) [] []))
   \<and> validateNumberInput (\<lambda>n. []) (js ''7, 1001 -3'') =
       \<lparr>valid = False, numbers = Undefined, message = None,
        error = Some (js ''1001 is out of range (1-1000), -3 is out of range (1-1000)'')\<rparr>"
proof -
  have toks: "tokens (trim (js ''7, 1001 -3'')) = [js ''7'', js ''1001'', js ''-3'']"
    by (simp add: tokens_eval)
  have p: "parseInt (js ''1001'') = Some 1001"
    by (simp add: token_eval)
  have loop: "snd (for_loop (\<lambda>n. []) [js ''7'', js ''1001'', js ''-3''] [] []) =
      [js ''1001 is out of range (1-1000)'', js ''-3 is out of range (1-1000)'']"
    by (simp add: token_eval)
  have n: "numberToString (\<lambda>n. []) 1001 = js ''1001''"
    by (simp add: token_eval)
  show ?thesis
    using out_of_range_collected [of "js ''1001''" "js ''7, 1001 -3''" 1001 "\<lambda>n. []"] p
    unfolding toks loop n by (simp add: js_def)
qed

text \<open>
  C6. When at least one token is in error, the result is one object with
  \<open>valid: false\<close> and no \<open>numbers\<close>, and its \<open>error\<close> joins the messages of all
  offending tokens in the order of the tokens.
\<close>

theorem errors_reported_together:
  assumes "List.map_filter (token_error big) (tokens (trim input)) \<noteq> []"
  shows "validateNumberInput big input =
           \<lparr>valid = False, numbers = Undefined, message = None,
            error = Some (join (js '', '')
                     (List.map_filter (token_error big) (tokens (trim input))))\<rparr>"
proof -
  from assms have "tokens (trim input) \<noteq> []"
    by (auto simp: List.map_filter_simps)
  then have "trim input \<noteq> []"
    by (auto simp: tokens_Nil)
  moreover have "for_loop big (tokens (trim input)) [] [] =
      (List.map_filter token_value (tokens (trim input)),
       List.map_filter (token_error big) (tokens (trim input)))"
    by (simp add: for_loop_map_filter)
  ultimately show ?thesis
    using assms by (simp add: validateNumberInput_def)
qed

theorem errors_reported_together_witness:
  "validateNumberInput (\<lambda>n. []) (js ''abc 7 0,x1'') =
     \<lparr>valid = False, numbers = Undefined, message = None,
      error = Some (js ''\"abc\" is not a number, 0 is out of range (1-1000), \"x1\" is not a number'')\<rparr>"
proof -
  have toks: "tokens (trim (js ''abc 7 0,x1'')) = [js ''abc'', js ''7'', js ''0'', js ''x1'']"
    by (simp add: tokens_eval)
  have errs: "List.map_filter (token_error (\<lambda>n. [])) [js ''abc'', js ''7'', js ''0'', js ''x1''] =
        [js ''\"abc\" is not a number'', js ''0 is out of range (1-1000)'',
         js ''\"x1\" is not a number'']"
    by (simp add: token_eval)
  show ?thesis
    using errors_reported_together [of "\<lambda>n. []" "js ''abc 7 0,x1''"]
    unfolding toks errs by (simp add: js_def)
qed

text \<open>
  C7. When no token is in error and more than 25 numbers were read, the result has
  \<open>valid: true\<close>, the first 25 numbers in the order of the input, and a message
  that announces the truncation; it carries no error.
\<close>

theorem truncated_to_first_25:
  assumes "List.map_filter (token_error big) (tokens (trim input)) = []"
    and "25 < length (List.map_filter token_value (tokens (trim input)))"
  shows "validateNumberInput big input =
     \<lparr>valid = True,
      numbers = Array (take 25 (List.map_filter token_value (tokens (trim input)))),
      message = Some (js ''Too many numbers. Using first 25: '' @
        join (js '', '')
          (map (\<lambda>n. natToString (nat n))
             (take 25 (List.map_filter token_value (tokens (trim input)))))),
      error = None\<rparr>"
proof -
  from assms(2) have "trim input \<noteq> []"
    by (auto simp: tokens_Nil List.map_filter_simps)
  then show ?thesis
    using assms by (simp add: validateNumberInput_no_errors)
qed

theorem truncated_to_first_25_witness:
  "validateNumberInput (\<lambda>n. [])
     (js ''1 2 3 4 5 6 7 8 9 10 11 12 13 14 15 16 17 18 19 20 21 22 23 24 25 26 27 28 29 30'') =
   \<lparr>valid = True,
    numbers = Array [1, 2, 3, 4, 5, 6, 7, 8, 9, 10, 11, 12, 13, 14, 15, 16, 17, 18, 19, 20,
                     21, 22, 23, 24, 25],
    message = Some (js ''Too many numbers. Using first 25: 1, 2, 3, 4, 5, 6, 7, 8, 9, 10, 11, 12, 13, 14, 15, 16, 17, 18, 19, 20, 21, 22, 23, 24, 25''),
    error = None\<rparr>"
proof -
  let ?input = "js ''1 2 3 4 5 6 7 8 9 10 11 12 13 14 15 16 17 18 19 20 21 22 23 24 25 26 27 28 29 30''"
  let ?toks = "[js ''1'', js ''2'', js ''3'', js ''4'', js ''5'', js ''6'', js ''7'', js ''8'',
      js ''9'', js ''10'', js ''11'', js ''12'', js ''13'', js ''14'', js ''15'', js ''16'',
      js ''17'', js ''18'', js ''19'', js ''20'', js ''21'', js ''22'', js ''23'', js ''24'',
      js ''25'', js ''26'', js ''27'', js ''28'', js ''29'', js ''30'']"
  have toks: "tokens (trim ?input) = ?toks"
    by (simp add: tokens_eval)
  have errs: "List.map_filter (token_error (\<lambda>n. [])) ?toks = []"
    by (simp add: token_eval)
  have vals: "List.map_filter token_value ?toks =
      [1, 2, 3, 4, 5, 6, 7, 8, 9, 10, 11, 12, 13, 14, 15, 16, 17, 18, 19, 20,
       21, 22, 23, 24, 25, 26, 27, 28, 29, 30]"
    by (simp add: token_eval)
  show ?thesis
    using truncated_to_first_25 [of "\<lambda>n. []" ?input]
    unfolding toks errs vals by (simp add: js_def)
qed

text \<open>
  C8. A result with \<open>valid: true\<close> and an array of numbers holds at most 25
  numbers, each an integer from 1 to 1000.
\<close>

theorem numbers_within_bounds:
  assumes "valid (validateNumberInput big input)"
    and "numbers (validateNumberInput big input) = Array ns"
  shows "length ns \<le> 25 \<and> (\<forall>n\<in>set ns. 1 \<le> n \<and> n \<le> 1000)"
proof (cases "trim input = []")
  case True
  with assms(2) show ?thesis
    by (simp add: validateNumberInput_def)
next
  case False
  show ?thesis
  proof (cases "List.map_filter (token_error big) (tokens (trim input)) = []")
    case True
    let ?vs = "List.map_filter token_value (tokens (trim input))"
    from assms(2) have "ns = ?vs \<and> length ?vs \<le> 25 \<or> ns = take 25 ?vs"
      unfolding validateNumberInput_no_errors [OF False True]
      by (simp split: if_splits)
    then show ?thesis
      by (auto dest: map_filter_range in_set_takeD)
  next
    case errs: False
    from validateNumberInput_some_error [OF False errs] assms(1) show ?thesis
      by simp
  qed
qed

theorem numbers_within_bounds_witness:
  "length [5, 10, 15 :: int] \<le> 25 \<and> list_all (\<lambda>n. 1 \<le> n \<and> n \<le> 1000) [5, 10, 15 :: int]
   \<and> validateNumberInput (\<lambda>n. []) (js ''5, 10  15'') =
       \<lparr>valid = True, numbers = Array [5, 10, 15],
        message = Some (js ''Valid numbers: 5, 10, 15''), error = None\<rparr>"
proof -
  have r: "validateNumberInput (\<lambda>n. []) (js ''5, 10  15'') =
       \<lparr>valid = True, numbers = Array [5, 10, 15],
        message = Some (js ''Valid numbers: 5, 10, 15''), error = None\<rparr>"
    by (simp add: eval_defs)
  show ?thesis
    using numbers_within_bounds [of "\<lambda>n. []" "js ''5, 10  15''" "[5, 10, 15]"]
    unfolding r by simp
qed

text \<open>
  C9. The validator is deterministic and depends on no hidden state. Run in any
  store, the function returns the result that the string alone determines; so two
  calls with the same string return the same record (\<open>valid\<close>, \<open>numbers\<close>, \<open>error\<close>
  and \<open>message\<close>), whether they start from different stores or the second starts
  from the store that the first has left. A call changes no array that existed
  before it: it only adds its own two.
\<close>

theorem validateNumberInput_deterministic:
  "fst (validateNumberInput_store big input h) = validateNumberInput big input
   \<and> fst (validateNumberInput_store big input h') = fst (validateNumberInput_store big input h)
   \<and> fst (validateNumberInput_store big input (snd (validateNumberInput_store big input h))) =
       fst (validateNumberInput_store big input h)
   \<and> take (length h) (snd (validateNumberInput_store big input h)) = h"
  by (simp add: validateNumberInput_store_result validateNumberInput_store_frame)

theorem validateNumberInput_deterministic_witness:
  "fst (validateNumberInput_store (\<lambda>n. []) (js ''4 x'') []) =
     \<lparr>valid = False, numbers = Undefined, message = None,
      error = Some (js ''\"x\" is not a number'')\<rparr>
   \<and> fst (validateNumberInput_store (\<lambda>n. []) (js ''4 x'')
          [Strings [js ''7 is out of range (1-1000)''], Numbers [1, 2]]) =
     \<lparr>valid = False, numbers = Undefined, message = None,
      error = Some (js ''\"x\" is not a number'')\<rparr>
   \<and> snd (validateNumberInput_store (\<lambda>n. []) (js ''4 x'')
          [Strings [js ''7 is out of range (1-1000)''], Numbers [1, 2]]) =
     [Strings [js ''7 is out of range (1-1000)''], Numbers [1, 2],
      Numbers [4], Strings [js ''\"x\" is not a number'']]"
proof -
  have v: "validateNumberInput (\<lambda>n. []) (js ''4 x'') =
     \<lparr>valid = False, numbers = Undefined, message = None,
      error = Some (js ''\"x\" is not a number'')\<rparr>"
    by (simp add: eval_defs)
  have s: "snd (validateNumberInput_store (\<lambda>n. []) (js ''4 x'')
          [Strings [js ''7 is out of range (1-1000)''], Numbers [1, 2]]) =
     [Strings [js ''7 is out of range (1-1000)''], Numbers [1, 2],
      Numbers [4], Strings [js ''\"x\" is not a number'']]"
    by (simp add: validateNumberInput_store_def new_array_def push_number_def
          push_string_def strings_of_def numbers_of_def eval_defs)
  show ?thesis
    using validateNumberInput_deterministic
        [of "\<lambda>n. []" "js ''4 x''" "[]"
            "[Strings [js ''7 is out of range (1-1000)''], Numbers [1, 2]]"]
    by (simp only: v s simp_thms)
qed

text \<open>
  C10. \<open>formatNumbers\<close> joins a list of at most 10 numbers with \<open>", "\<close>; of a longer
  list it joins the first five, then \<open>" ... "\<close>, then the last five.
\<close>

theorem formatNumbers_short_or_elided:
  "(length nums \<le> 10 \<longrightarrow>
      formatNumbers toStr nums = join (js '', '') (map toStr nums))
   \<and> (10 < length nums \<longrightarrow>
      formatNumbers toStr nums =
        join (js '', '') (map toStr (take 5 nums)) @ js '' ... '' @
        join (js '', '') (map toStr (rev (take 5 (rev nums)))))"
proof -
  have first: "slice 0 (Some 5) nums = take 5 nums"
    using slice_take [of 5 nums] by simp
  have last: "slice (- 5) None nums = rev (take 5 (rev nums))"
    using slice_last [of 5 nums] by simp
  show ?thesis
    by (simp add: formatNumbers_def first last)
qed

theorem formatNumbers_short_or_elided_witness:
  "formatNumbers (\<lambda>n. natToString (nat n)) [3, 1, 2 :: int] = js ''3, 1, 2''
   \<and> formatNumbers (\<lambda>n. natToString (nat n)) [1, 2, 3, 4, 5, 6, 7, 8, 9, 10, 11, 12 :: int] =
       js ''1, 2, 3, 4, 5 ... 8, 9, 10, 11, 12''"
  using formatNumbers_short_or_elided [of "[3, 1, 2 :: int]" "\<lambda>n. natToString (nat n)"]
    formatNumbers_short_or_elided
      [of "[1, 2, 3, 4, 5, 6, 7, 8, 9, 10, 11, 12 :: int]" "\<lambda>n. natToString (nat n)"]
  by (simp add: js_def)

section \<open>Correctness of the step generators\<close>

subsection \<open>The order of a direction and the array of a state\<close>

lemma inorder_refl [simp]: "inorder d a a"
  by (cases d) (simp_all add: inorder_def)

lemma inorder_trans: "inorder d a b \<Longrightarrow> inorder d b c \<Longrightarrow> inorder d a c"
  by (cases d) (simp_all add: inorder_def)

lemma inorder_total: "inorder d a b \<or> inorder d b a"
  by (cases d) (auto simp: inorder_def)

lemma shouldSwap_inorder: "shouldSwap d a b \<Longrightarrow> inorder d b a"
  by (cases d) (simp_all add: inorder_def)

lemma transp_inorder: "transp (inorder d)"
  by (rule transpI) (rule inorder_trans)

lemma sorted_per_iff_wrt: "sorted_per d xs \<longleftrightarrow> sorted_wrt (inorder d) xs"
proof (cases d)
  case Ascending
  have "inorder Ascending = (\<le>)"
    by (intro ext) (auto simp: inorder_def)
  with Ascending show ?thesis by (simp add: sorted_per_def)
next
  case Descending
  have "inorder Descending = (\<lambda>a b. b \<le> a)"
    by (intro ext) (auto simp: inorder_def)
  with Descending show ?thesis by (simp add: sorted_per_def sorted_wrt_rev)
qed

lemma sorted_per_iff_nth:
  "sorted_per d xs \<longleftrightarrow> (\<forall>i j. i < j \<longrightarrow> j < length xs \<longrightarrow> inorder d (xs ! i) (xs ! j))"
  by (simp add: sorted_per_iff_wrt sorted_wrt_iff_nth_less)

lemma sorted_per_iff_adjacent:
  "sorted_per d xs \<longleftrightarrow> (\<forall>i. Suc i < length xs \<longrightarrow> inorder d (xs ! i) (xs ! Suc i))"
  by (simp add: sorted_per_iff_wrt sorted_wrt_iff_nth_Suc_transp [OF transp_inorder])

lemma fst_emit [simp]: "fst (emit k ix s) = fst s"
  by (simp add: emit_def)

lemma fst_swap_at [simp]: "fst (swap_at i j s) = (fst s)[i := fst s ! j, j := fst s ! i]"
  by (simp add: swap_at_def)

lemma fst_write_at [simp]: "fst (write_at k i v s) = (fst s)[i := v]"
  by (simp add: write_at_def)

subsection \<open>Bubble sort: termination and correctness\<close>

lemma inversions_append:
  "inversions d (pre @ xs) =
     inversions d pre + inversions d xs
     + (\<Sum>x\<leftarrow>pre. length (filter (shouldSwap d x) xs))"
  by (induction pre) auto

lemma shouldSwap_asym: "shouldSwap d x y \<Longrightarrow> \<not> shouldSwap d y x"
  by (cases d) auto

lemma inversions_adjacent:
  assumes "shouldSwap d x y"
  shows "Suc (inversions d (pre @ y # x # post)) = inversions d (pre @ x # y # post)"
proof -
  have "\<not> shouldSwap d y x"
    using assms by (rule shouldSwap_asym)
  moreover have "(\<Sum>z\<leftarrow>pre. length (filter (shouldSwap d z) (y # x # post))) =
        (\<Sum>z\<leftarrow>pre. length (filter (shouldSwap d z) (x # y # post)))"
    by (rule arg_cong [where f = sum_list]) (rule map_cong, auto)
  ultimately show ?thesis
    using assms by (simp add: inversions_append)
qed

lemma swap_adjacent_conv:
  assumes "Suc j < length a"
  shows "a = take j a @ a ! j # a ! Suc j # drop (Suc (Suc j)) a"
    and "a[j := a ! Suc j, Suc j := a ! j] = take j a @ a ! Suc j # a ! j # drop (Suc (Suc j)) a"
proof -
  show a: "a = take j a @ a ! j # a ! Suc j # drop (Suc (Suc j)) a"
    using assms by (metis Cons_nth_drop_Suc Suc_lessD append_take_drop_id)
  have "length (take j a) = j" using assms by simp
  then show "a[j := a ! Suc j, Suc j := a ! j] = take j a @ a ! Suc j # a ! j # drop (Suc (Suc j)) a"
    by (subst (1) a) (simp add: list_update_append nth_append)
qed

lemma inversions_swap_adjacent:
  assumes "Suc j < length a" and "shouldSwap d (a ! j) (a ! Suc j)"
  shows "inversions d (a[j := a ! Suc j, Suc j := a ! j]) < inversions d a"
proof -
  have "Suc (inversions d (take j a @ a ! Suc j # a ! j # drop (Suc (Suc j)) a)) =
        inversions d (take j a @ a ! j # a ! Suc j # drop (Suc (Suc j)) a)"
    using assms(2) by (rule inversions_adjacent)
  then show ?thesis
    using swap_adjacent_conv [OF assms(1)] by simp
qed

lemma bubble_pass_props:
  assumes "bubble_pass d todo (s, b) = (s', b')" and "\<forall>j\<in>set todo. Suc j < length (fst s)"
  shows "length (fst s') = length (fst s) \<and> mset (fst s') = mset (fst s)
    \<and> inversions d (fst s') \<le> inversions d (fst s)
    \<and> (b' \<and> \<not> b \<longrightarrow> inversions d (fst s') < inversions d (fst s))
    \<and> (\<not> b' \<longrightarrow> \<not> b \<and> fst s' = fst s
          \<and> (\<forall>j\<in>set todo. \<not> shouldSwap d (fst s ! j) (fst s ! Suc j)))"
  using assms
proof (induction todo arbitrary: s b)
  case Nil
  then show ?case by simp
next
  case (Cons j todo)
  let ?a = "fst s"
  have j: "Suc j < length ?a" using Cons.prems(2) by simp
  show ?case
  proof (cases "shouldSwap d (?a ! j) (?a ! Suc j)")
    case True
    let ?s1 = "swap_at j (j + 1) (emit KCompare [j, j + 1] s)"
    have run: "bubble_pass d todo (?s1, True) = (s', b')"
      using Cons.prems(1) True by simp
    have a1: "fst ?s1 = ?a[j := ?a ! Suc j, Suc j := ?a ! j]" by simp
    have len: "length (fst ?s1) = length ?a" by simp
    have "\<forall>k\<in>set todo. Suc k < length (fst ?s1)"
      using Cons.prems(2) by simp
    from Cons.IH [OF run this]
    have IH: "length (fst s') = length (fst ?s1)" "mset (fst s') = mset (fst ?s1)"
      "inversions d (fst s') \<le> inversions d (fst ?s1)" "b'"
      by auto
    have "mset (fst ?s1) = mset ?a"
      using j by (simp add: mset_swap)
    moreover have "inversions d (fst ?s1) < inversions d ?a"
      unfolding a1 using j True by (rule inversions_swap_adjacent)
    ultimately show ?thesis
      using IH len by auto
  next
    case False
    let ?s1 = "emit KCompare [j, j + 1] s"
    have run: "bubble_pass d todo (?s1, b) = (s', b')"
      using Cons.prems(1) False by simp
    have "\<forall>k\<in>set todo. Suc k < length (fst ?s1)"
      using Cons.prems(2) by simp
    from Cons.IH [OF run this] False show ?thesis
      by auto
  qed
qed

termination bubble_sort
proof (relation "measure (\<lambda>(d, s). inversions d (fst s))")
  show "wf (measure (\<lambda>(d, s). inversions d (fst s)))" by simp
next
  fix d :: direction and s x :: gen_state and s' swapped
  assume "(s', swapped) = bubble_pass d [0..<length (fst s) - 1] (s, False)" and "swapped"
  then have "bubble_pass d [0..<length (fst s) - 1] (s, False) = (s', True)" by simp
  moreover have "\<forall>j\<in>set [0..<length (fst s) - 1]. Suc j < length (fst s)" by auto
  ultimately have "inversions d (fst s') < inversions d (fst s)"
    using bubble_pass_props [of d "[0..<length (fst s) - 1]" s False s' True] by blast
  then show "((d, s'), (d, s)) \<in> measure (\<lambda>(d, s). inversions d (fst s))" by simp
qed

declare bubble_sort.simps [simp del]

lemma bubble_sort_correct:
  "mset (fst (bubble_sort d s)) = mset (fst s) \<and> sorted_per d (fst (bubble_sort d s))"
proof (induction d s rule: bubble_sort.induct)
  case (1 d s)
  obtain s' swapped where run: "bubble_pass d [0..<length (fst s) - 1] (s, False) = (s', swapped)"
    by (cases "bubble_pass d [0..<length (fst s) - 1] (s, False)")
  have props: "length (fst s') = length (fst s) \<and> mset (fst s') = mset (fst s)
    \<and> (\<not> swapped \<longrightarrow> fst s' = fst s
          \<and> (\<forall>j\<in>set [0..<length (fst s) - 1]. \<not> shouldSwap d (fst s ! j) (fst s ! Suc j)))"
  proof -
    have "\<forall>j\<in>set [0..<length (fst s) - 1]. Suc j < length (fst s)" by auto
    from bubble_pass_props [OF run this] show ?thesis by blast
  qed
  show ?case
  proof (cases swapped)
    case True
    with 1 [OF run [symmetric]] run props show ?thesis
      by (simp add: bubble_sort.simps [of d s])
  next
    case False
    with props have "\<forall>i. Suc i < length (fst s') \<longrightarrow> inorder d (fst s' ! i) (fst s' ! Suc i)"
      by (auto simp: inorder_def)
    then have "sorted_per d (fst s')"
      by (simp add: sorted_per_iff_adjacent)
    with False run props show ?thesis
      by (simp add: bubble_sort.simps [of d s])
  qed
qed

subsection \<open>Insertion sort\<close>

lemma insertion_shift_length [simp]:
  "length (fst (insertion_shift d key j s)) = length (fst s)"
  by (induction j arbitrary: s) (auto simp: Let_def)

lemma insertion_shift_mset:
  "j < length (fst s) \<Longrightarrow> mset (fst (insertion_shift d key j s)) = mset ((fst s)[j := key])"
proof (induction j arbitrary: s)
  case 0
  then show ?case by simp
next
  case (Suc k)
  let ?a = "fst s"
  show ?case
  proof (cases "shouldSwap d (?a ! k) key")
    case True
    let ?b = "?a[Suc k := key]"
    have "mset (fst (insertion_shift d key (Suc k) s)) = mset (?a[Suc k := ?a ! k, k := key])"
      using True Suc by (simp add: Let_def)
    also have "?a[Suc k := ?a ! k, k := key] = ?b[Suc k := ?b ! k, k := ?b ! Suc k]"
      using Suc.prems by simp
    also have "mset \<dots> = mset ?b"
      using Suc.prems by (intro mset_swap) simp_all
    finally show ?thesis .
  next
    case False
    then show ?thesis by (simp add: Let_def)
  qed
qed

lemma insertion_shift_sorted:
  assumes "sorted_but d (fst s) j i" and "\<forall>q. j < q \<and> q \<le> i \<longrightarrow> inorder d key (fst s ! q)"
    and "j \<le> i" and "i < length (fst s)"
  shows "\<forall>p q. p < q \<and> q \<le> i \<longrightarrow>
           inorder d (fst (insertion_shift d key j s) ! p) (fst (insertion_shift d key j s) ! q)"
  using assms
proof (induction j arbitrary: s)
  case 0
  show ?case
  proof (intro allI impI)
    fix p q assume pq: "p < q \<and> q \<le> i"
    then have "p < length (fst s)" "q < length (fst s)" using 0(4) by auto
    then show "inorder d (fst (insertion_shift d key 0 s) ! p) (fst (insertion_shift d key 0 s) ! q)"
      using pq 0(1,2) by (cases "p = 0") (auto simp: sorted_but_def nth_list_update)
  qed
next
  case (Suc k)
  let ?a = "fst s"
  show ?case
  proof (cases "shouldSwap d (?a ! k) key")
    case True
    let ?s1 = "write_at KSet (Suc k) (?a ! k) (emit KCompare [k, Suc k] s)"
    have run: "insertion_shift d key (Suc k) s = insertion_shift d key k ?s1"
      using True by (simp add: Let_def)
    have a1: "fst ?s1 = ?a[Suc k := ?a ! k]" by simp
    have "sorted_but d (fst ?s1) k i"
      unfolding a1 sorted_but_def
    proof (intro allI impI)
      fix p q assume pq: "p < q \<and> q \<le> i \<and> p \<noteq> k \<and> q \<noteq> k"
      show "inorder d (?a[Suc k := ?a ! k] ! p) (?a[Suc k := ?a ! k] ! q)"
      proof (cases "q = Suc k")
        case True
        with pq have "p < k" by simp
        with pq True Suc.prems(1,3) have "inorder d (?a ! p) (?a ! k)"
          by (auto simp: sorted_but_def)
        with True pq Suc.prems(4) show ?thesis by (simp add: nth_list_update)
      next
        case False
        show ?thesis
        proof (cases "p = Suc k")
          case True
          with pq Suc.prems(1) have "inorder d (?a ! k) (?a ! q)"
            by (auto simp: sorted_but_def)
          with True pq False Suc.prems(4) show ?thesis by (simp add: nth_list_update)
        next
          case pF: False
          with False pq Suc.prems(1) show ?thesis
            by (auto simp: sorted_but_def nth_list_update)
        qed
      qed
    qed
    moreover have "\<forall>q. k < q \<and> q \<le> i \<longrightarrow> inorder d key (fst ?s1 ! q)"
      unfolding a1 using True Suc.prems(2,4)
      by (auto simp: nth_list_update dest: shouldSwap_inorder)
    moreover have "k \<le> i" using Suc.prems(3) by simp
    moreover have "i < length (fst ?s1)" using Suc.prems(4) by simp
    ultimately show ?thesis
      unfolding run by (rule Suc.IH)
  next
    case False
    then have k: "inorder d (?a ! k) key" by (simp add: inorder_def)
    have r: "fst (insertion_shift d key (Suc k) s) = ?a[Suc k := key]"
      using False by (simp add: Let_def)
    show ?thesis
      unfolding r
    proof (intro allI impI)
      fix p q assume pq: "p < q \<and> q \<le> i"
      show "inorder d (?a[Suc k := key] ! p) (?a[Suc k := key] ! q)"
      proof (cases "q = Suc k")
        case True
        have "inorder d (?a ! p) key"
        proof (cases "p = k")
          case True
          with k show ?thesis by simp
        next
          case False
          with pq True Suc.prems(1,3) have "inorder d (?a ! p) (?a ! k)"
            by (auto simp: sorted_but_def)
          then show ?thesis using k by (rule inorder_trans)
        qed
        with True pq Suc.prems(4) show ?thesis by (simp add: nth_list_update)
      next
        case False
        show ?thesis
        proof (cases "p = Suc k")
          case True
          with pq Suc.prems(2) have "inorder d key (?a ! q)" by simp
          with True pq False Suc.prems(4) show ?thesis by (simp add: nth_list_update)
        next
          case pF: False
          with False pq Suc.prems(1) show ?thesis
            by (auto simp: sorted_but_def nth_list_update)
        qed
      qed
    qed
  qed
qed

lemma insertion_step_props:
  assumes "i < length (fst s)"
    and "\<forall>p q. p < q \<and> q < i \<longrightarrow> inorder d (fst s ! p) (fst s ! q)"
  shows "length (fst (insertion_step d s i)) = length (fst s)"
    and "mset (fst (insertion_step d s i)) = mset (fst s)"
    and "\<forall>p q. p < q \<and> q \<le> i \<longrightarrow>
           inorder d (fst (insertion_step d s i) ! p) (fst (insertion_step d s i) ! q)"
proof -
  show "length (fst (insertion_step d s i)) = length (fst s)"
    by (simp add: insertion_step_def)
  show "mset (fst (insertion_step d s i)) = mset (fst s)"
    using assms(1) by (simp add: insertion_step_def insertion_shift_mset)
  have sb: "sorted_but d (fst s) i i"
    using assms(2) by (auto simp: sorted_but_def)
  have above: "\<forall>q. i < q \<and> q \<le> i \<longrightarrow> inorder d (fst s ! i) (fst s ! q)"
    by auto
  show "\<forall>p q. p < q \<and> q \<le> i \<longrightarrow>
           inorder d (fst (insertion_step d s i) ! p) (fst (insertion_step d s i) ! q)"
    unfolding insertion_step_def
    by (rule insertion_shift_sorted [OF sb above order_refl assms(1)])
qed

lemma insertion_loop_props:
  "m \<le> length (fst s) \<Longrightarrow>
   length (fst (foldl (insertion_step d) s [1..<m])) = length (fst s)
   \<and> mset (fst (foldl (insertion_step d) s [1..<m])) = mset (fst s)
   \<and> (\<forall>p q. p < q \<and> q < m \<longrightarrow>
         inorder d (fst (foldl (insertion_step d) s [1..<m]) ! p)
                   (fst (foldl (insertion_step d) s [1..<m]) ! q))"
proof (induction m)
  case 0
  then show ?case by simp
next
  case (Suc m)
  show ?case
  proof (cases "m = 0")
    case True
    then show ?thesis by simp
  next
    case False
    let ?s = "foldl (insertion_step d) s [1..<m]"
    from Suc have IH: "length (fst ?s) = length (fst s)" "mset (fst ?s) = mset (fst s)"
      "\<forall>p q. p < q \<and> q < m \<longrightarrow> inorder d (fst ?s ! p) (fst ?s ! q)"
      by simp_all
    have m: "m < length (fst ?s)" using Suc.prems IH(1) by simp
    have run: "foldl (insertion_step d) s [1..<Suc m] = insertion_step d ?s m"
      using False by simp
    show ?thesis
      unfolding run
      using insertion_step_props [OF m IH(3)] IH(1,2) by (simp add: less_Suc_eq_le)
  qed
qed

lemma insertion_sort_correct:
  "mset (fst (insertion_sort d s)) = mset (fst s) \<and> sorted_per d (fst (insertion_sort d s))"
  using insertion_loop_props [of "length (fst s)" s d]
  by (simp add: insertion_sort_def sorted_per_iff_nth)

subsection \<open>Selection sort\<close>

lemma selection_scan_props:
  assumes "selection_scan d todo m s = (m', s')"
  shows "fst s' = fst s \<and> (m' = m \<or> m' \<in> set todo)
    \<and> inorder d (fst s ! m') (fst s ! m)
    \<and> (\<forall>j\<in>set todo. inorder d (fst s ! m') (fst s ! j))"
  using assms
proof (induction todo arbitrary: m s)
  case Nil
  then show ?case by auto
next
  case (Cons j todo)
  let ?a = "fst s"
  let ?s1 = "emit KCompare [m, j] s"
  show ?case
  proof (cases "shouldSwap d (?a ! m) (?a ! j)")
    case True
    then have run: "selection_scan d todo j ?s1 = (m', s')"
      using Cons.prems by simp
    from Cons.IH [OF run]
    have IH: "fst s' = ?a" "m' = j \<or> m' \<in> set todo" "inorder d (?a ! m') (?a ! j)"
      "\<forall>k\<in>set todo. inorder d (?a ! m') (?a ! k)"
      by simp_all
    have "inorder d (?a ! j) (?a ! m)"
      using True by (rule shouldSwap_inorder)
    with IH(3) have "inorder d (?a ! m') (?a ! m)"
      by (rule inorder_trans)
    with IH show ?thesis by auto
  next
    case False
    then have run: "selection_scan d todo m ?s1 = (m', s')"
      using Cons.prems by simp
    from Cons.IH [OF run]
    have IH: "fst s' = ?a" "m' = m \<or> m' \<in> set todo" "inorder d (?a ! m') (?a ! m)"
      "\<forall>k\<in>set todo. inorder d (?a ! m') (?a ! k)"
      by simp_all
    have "inorder d (?a ! m) (?a ! j)"
      using False by (simp add: inorder_def)
    with IH(3) have "inorder d (?a ! m') (?a ! j)"
      by (rule inorder_trans)
    with IH show ?thesis by auto
  qed
qed

lemma selection_step_props:
  assumes "i < length (fst s)"
    and "\<forall>p q. p < q \<and> p < i \<and> q < length (fst s) \<longrightarrow> inorder d (fst s ! p) (fst s ! q)"
  shows "length (fst (selection_step d s i)) = length (fst s)"
    and "mset (fst (selection_step d s i)) = mset (fst s)"
    and "\<forall>p q. p < q \<and> p < Suc i \<and> q < length (fst s) \<longrightarrow>
           inorder d (fst (selection_step d s i) ! p) (fst (selection_step d s i) ! q)"
proof -
  let ?a = "fst s"
  let ?n = "length ?a"
  obtain m s1 where scan: "selection_scan d [Suc i..<?n] i s = (m, s1)"
    by (cases "selection_scan d [Suc i..<?n] i s")
  from selection_scan_props [OF scan]
  have s1: "fst s1 = ?a" and m: "m = i \<or> m \<in> set [Suc i..<?n]"
    and mi: "inorder d (?a ! m) (?a ! i)"
    and least: "\<forall>j\<in>set [Suc i..<?n]. inorder d (?a ! m) (?a ! j)"
    by simp_all
  from m assms(1) have mr: "i \<le> m" "m < ?n" by auto
  let ?r = "?a[i := ?a ! m, m := ?a ! i]"
  have r: "fst (selection_step d s i) = ?r"
    using scan s1 by (auto simp: selection_step_def)
  show "length (fst (selection_step d s i)) = ?n"
    by (simp add: r)
  show "mset (fst (selection_step d s i)) = mset ?a"
    unfolding r using assms(1) mr by (simp add: mset_swap)
  have min: "inorder d (?a ! m) (?a ! q)" if "i \<le> q" "q < ?n" for q
    using that mi least by (cases "q = i") auto
  show "\<forall>p q. p < q \<and> p < Suc i \<and> q < ?n \<longrightarrow>
           inorder d (fst (selection_step d s i) ! p) (fst (selection_step d s i) ! q)"
    unfolding r
  proof (intro allI impI)
    fix p q assume pq: "p < q \<and> p < Suc i \<and> q < ?n"
    then have pn: "p < ?n" by simp
    have rq: "?r ! q = (if q = m then ?a ! i else if q = i then ?a ! m else ?a ! q)"
      using pq mr by (auto simp: nth_list_update)
    show "inorder d (?r ! p) (?r ! q)"
    proof (cases "p = i")
      case True
      then have "?r ! p = ?a ! m"
        using assms(1) mr by (auto simp: nth_list_update)
      moreover have "inorder d (?a ! m) (?r ! q)"
        unfolding rq using min pq True assms(1) by auto
      ultimately show ?thesis by simp
    next
      case False
      with pq have pi: "p < i" by simp
      then have "?r ! p = ?a ! p"
        using mr by (auto simp: nth_list_update)
      moreover have "inorder d (?a ! p) (?r ! q)"
        unfolding rq using assms(2) pi pq assms(1) mr by auto
      ultimately show ?thesis by simp
    qed
  qed
qed

lemma selection_loop_props:
  "m \<le> length (fst s) \<Longrightarrow>
   length (fst (foldl (selection_step d) s [0..<m])) = length (fst s)
   \<and> mset (fst (foldl (selection_step d) s [0..<m])) = mset (fst s)
   \<and> (\<forall>p q. p < q \<and> p < m \<and> q < length (fst s) \<longrightarrow>
         inorder d (fst (foldl (selection_step d) s [0..<m]) ! p)
                   (fst (foldl (selection_step d) s [0..<m]) ! q))"
proof (induction m)
  case 0
  then show ?case by simp
next
  case (Suc m)
  let ?s = "foldl (selection_step d) s [0..<m]"
  from Suc have IH: "length (fst ?s) = length (fst s)" "mset (fst ?s) = mset (fst s)"
    "\<forall>p q. p < q \<and> p < m \<and> q < length (fst ?s) \<longrightarrow> inorder d (fst ?s ! p) (fst ?s ! q)"
    by simp_all
  have m: "m < length (fst ?s)" using Suc.prems IH(1) by simp
  have run: "foldl (selection_step d) s [0..<Suc m] = selection_step d ?s m"
    by simp
  show ?case
    unfolding run
    using selection_step_props [OF m IH(3)] IH(1,2) by simp
qed

lemma selection_sort_correct:
  "mset (fst (selection_sort d s)) = mset (fst s) \<and> sorted_per d (fst (selection_sort d s))"
  using selection_loop_props [of "length (fst s)" s d]
  by (simp add: selection_sort_def sorted_per_iff_nth)

subsection \<open>Merge sort\<close>

termination merge_sort_range
  by (relation "measure (\<lambda>(d, lo, hi, s). hi - lo)") auto

declare merge_sort_range.simps [simp del]

lemma mset_merge_lists: "mset (merge_lists d xs ys) = mset xs + mset ys"
  by (induction d xs ys rule: merge_lists.induct) auto

lemma set_merge_lists: "set (merge_lists d xs ys) = set xs \<union> set ys"
  by (induction d xs ys rule: merge_lists.induct) auto

lemma length_merge_lists: "length (merge_lists d xs ys) = length xs + length ys"
  by (induction d xs ys rule: merge_lists.induct) auto

lemma sorted_merge_lists:
  "sorted_wrt (inorder d) xs \<Longrightarrow> sorted_wrt (inorder d) ys \<Longrightarrow>
   sorted_wrt (inorder d) (merge_lists d xs ys)"
proof (induction d xs ys rule: merge_lists.induct)
  case (3 d x xs y ys)
  show ?case
  proof (cases "shouldSwap d x y")
    case True
    then have yx: "inorder d y x" by (rule shouldSwap_inorder)
    have "\<forall>z\<in>set (x # xs) \<union> set ys. inorder d y z"
      using 3(4) 3(3) yx by (auto intro: inorder_trans)
    with 3 True show ?thesis by (auto simp: set_merge_lists)
  next
    case False
    then have xy: "inorder d x y" by (simp add: inorder_def)
    have "\<forall>z\<in>set xs \<union> set (y # ys). inorder d x z"
      using 3(3) 3(4) xy by (auto intro: inorder_trans)
    with 3 False show ?thesis by (auto simp: set_merge_lists)
  qed
qed simp_all

lemma write_all_fst:
  "k + length vs \<le> length (fst s) \<Longrightarrow>
   fst (write_all k vs s) = take k (fst s) @ vs @ drop (k + length vs) (fst s)"
proof (induction vs arbitrary: k s)
  case Nil
  then show ?case by simp
next
  case (Cons v vs)
  let ?a = "fst s"
  have k: "k < length ?a" using Cons.prems by simp
  have "fst (write_all (Suc k) vs (write_at KMergeWrite k v s)) =
        take (Suc k) (?a[k := v]) @ vs @ drop (Suc k + length vs) (?a[k := v])"
    using Cons.prems Cons.IH [of "Suc k" "write_at KMergeWrite k v s"] by simp
  also have "take (Suc k) (?a[k := v]) = take k ?a @ [v]"
    using k by (simp add: take_Suc_conv_app_nth)
  also have "drop (Suc k + length vs) (?a[k := v]) = drop (k + length (v # vs)) ?a"
    by simp
  finally show ?case by simp
qed

lemma segment_whole: "segment a 0 (length a) = a"
  by (simp add: segment_def)

lemma length_segment: "hi \<le> length a \<Longrightarrow> length (segment a lo hi) = hi - lo"
  by (simp add: segment_def)

lemma segment_split:
  "lo \<le> mid \<Longrightarrow> mid \<le> hi \<Longrightarrow> segment a lo hi = segment a lo mid @ segment a mid hi"
proof -
  assume a: "lo \<le> mid" "mid \<le> hi"
  have "take (hi - lo) (drop lo a) =
        take (mid - lo) (drop lo a) @ take (hi - lo - (mid - lo)) (drop (mid - lo) (drop lo a))"
    using a by (metis le_add_diff_inverse diff_le_mono take_add)
  then show ?thesis
    using a by (simp add: segment_def)
qed

lemma list_split3:
  "lo \<le> hi \<Longrightarrow> a = take lo a @ segment a lo hi @ drop hi a"
proof -
  assume "lo \<le> hi"
  then have "drop lo a = take (hi - lo) (drop lo a) @ drop hi a"
    by (metis append_take_drop_id drop_drop le_add_diff_inverse2)
  then show ?thesis
    by (metis append_take_drop_id segment_def)
qed

lemma segment_eqI:
  assumes "take hi r = take hi a" and "lo \<le> hi"
  shows "segment r lo hi = segment a lo hi"
proof -
  have "segment r lo hi = drop lo (take hi r)"
    by (simp add: segment_def drop_take)
  also have "\<dots> = drop lo (take hi a)" by (simp add: assms(1))
  also have "\<dots> = segment a lo hi"
    by (simp add: segment_def drop_take)
  finally show ?thesis .
qed

lemma segment_eqI2:
  assumes "drop lo r = drop lo a"
  shows "segment r lo hi = segment a lo hi"
  by (simp add: segment_def assms)

lemma segment_of_split3:
  assumes "length pre = lo" and "length mid = hi - lo" and "lo \<le> hi"
  shows "segment (pre @ mid @ post) lo hi = mid"
    and "take lo (pre @ mid @ post) = pre"
    and "drop hi (pre @ mid @ post) = post"
  using assms by (simp_all add: segment_def)

lemma merge_ranges_fst:
  assumes "lo \<le> mid" and "mid \<le> hi" and "hi \<le> length (fst s)"
  shows "fst (merge_ranges d lo mid hi s) =
     take lo (fst s) @ merge_lists d (segment (fst s) lo mid) (segment (fst s) mid hi)
       @ drop hi (fst s)"
proof -
  let ?m = "merge_lists d (segment (fst s) lo mid) (segment (fst s) mid hi)"
  have len: "length ?m = hi - lo"
    using assms by (simp add: length_merge_lists length_segment)
  then have "lo + length ?m \<le> length (fst s)" and "lo + length ?m = hi"
    using assms by simp_all
  then show ?thesis
    using write_all_fst [of lo ?m s] by (simp add: merge_ranges_def)
qed

lemma merge_sort_range_props:
  "lo \<le> hi \<Longrightarrow> hi \<le> length (fst s) \<Longrightarrow>
   length (fst (merge_sort_range d lo hi s)) = length (fst s)
   \<and> take lo (fst (merge_sort_range d lo hi s)) = take lo (fst s)
   \<and> drop hi (fst (merge_sort_range d lo hi s)) = drop hi (fst s)
   \<and> mset (segment (fst (merge_sort_range d lo hi s)) lo hi) = mset (segment (fst s) lo hi)
   \<and> sorted_wrt (inorder d) (segment (fst (merge_sort_range d lo hi s)) lo hi)"
proof (induction d lo hi s rule: merge_sort_range.induct)
  case (1 d lo hi s)
  show ?case
  proof (cases "hi - lo < 2")
    case True
    have "length (segment (fst s) lo hi) \<le> 1"
      using True 1(4) by (simp add: length_segment)
    then have "sorted_wrt (inorder d) (segment (fst s) lo hi)"
      by (cases "segment (fst s) lo hi") auto
    with True show ?thesis
      by (simp add: merge_sort_range.simps [of d lo hi s])
  next
    case False
    let ?mid = "(lo + hi) div 2"
    let ?s1 = "merge_sort_range d lo ?mid s"
    let ?s2 = "merge_sort_range d ?mid hi ?s1"
    let ?a = "fst s" and ?r1 = "fst ?s1" and ?r2 = "fst ?s2"
    have mid: "lo \<le> ?mid" "?mid \<le> hi" using 1(3) by auto
    have midlen: "?mid \<le> length ?a" using mid 1(4) by simp
    from 1(1) [OF False mid(1) midlen]
    have r1: "length ?r1 = length ?a" "take lo ?r1 = take lo ?a" "drop ?mid ?r1 = drop ?mid ?a"
      "mset (segment ?r1 lo ?mid) = mset (segment ?a lo ?mid)"
      "sorted_wrt (inorder d) (segment ?r1 lo ?mid)"
      by simp_all
    have hilen: "hi \<le> length ?r1" using 1(4) r1(1) by simp
    from 1(2) [OF False mid(2) hilen]
    have r2: "length ?r2 = length ?r1" "take ?mid ?r2 = take ?mid ?r1" "drop hi ?r2 = drop hi ?r1"
      "mset (segment ?r2 ?mid hi) = mset (segment ?r1 ?mid hi)"
      "sorted_wrt (inorder d) (segment ?r2 ?mid hi)"
      by simp_all
    have left: "segment ?r2 lo ?mid = segment ?r1 lo ?mid"
      using r2(2) mid(1) by (rule segment_eqI)
    have right1: "segment ?r1 ?mid hi = segment ?a ?mid hi"
      using r1(3) by (rule segment_eqI2)
    have take2: "take lo ?r2 = take lo ?a"
    proof -
      have "take lo ?r2 = take lo (take ?mid ?r2)" using mid(1) by (simp add: min_def)
      also have "\<dots> = take lo (take ?mid ?r1)" by (simp only: r2(2))
      also have "\<dots> = take lo ?r1" using mid(1) by (simp add: min_def)
      finally show ?thesis using r1(2) by simp
    qed
    have drop2: "drop hi ?r2 = drop hi ?a"
    proof -
      have "drop hi ?r1 = drop (hi - ?mid) (drop ?mid ?r1)" using mid(2) by simp
      also have "\<dots> = drop (hi - ?mid) (drop ?mid ?a)" by (simp only: r1(3))
      also have "\<dots> = drop hi ?a" using mid(2) by simp
      finally show ?thesis using r2(3) by simp
    qed
    let ?m = "merge_lists d (segment ?r2 lo ?mid) (segment ?r2 ?mid hi)"
    have hilen2: "hi \<le> length ?r2" using hilen r2(1) by simp
    have run: "merge_sort_range d lo hi s = merge_ranges d lo ?mid hi ?s2"
      using False by (simp add: merge_sort_range.simps [of d lo hi s])
    have res: "fst (merge_sort_range d lo hi s) = take lo ?r2 @ ?m @ drop hi ?r2"
      unfolding run using mid hilen2 by (rule merge_ranges_fst)
    have lenm: "length ?m = hi - lo"
      using mid hilen2 by (simp add: length_merge_lists length_segment)
    have lenpre: "length (take lo ?r2) = lo"
      using mid hilen2 by simp
    have seg: "segment (fst (merge_sort_range d lo hi s)) lo hi = ?m"
      unfolding res by (rule segment_of_split3(1) [OF lenpre lenm 1(3)])
    have pre: "take lo (fst (merge_sort_range d lo hi s)) = take lo ?r2"
      unfolding res by (rule segment_of_split3(2) [OF lenpre lenm 1(3)])
    have post: "drop hi (fst (merge_sort_range d lo hi s)) = drop hi ?r2"
      unfolding res by (rule segment_of_split3(3) [OF lenpre lenm 1(3)])
    have "length (fst (merge_sort_range d lo hi s)) = length ?a"
      unfolding res using lenm hilen2 r1(1) r2(1) 1(3) by simp
    moreover have "mset ?m = mset (segment ?a lo hi)"
      using left r1(4) r2(4) right1 segment_split [OF mid, of ?a]
      by (simp add: mset_merge_lists)
    moreover have "sorted_wrt (inorder d) ?m"
      using left r1(5) r2(5) by (simp add: sorted_merge_lists)
    ultimately show ?thesis
      using seg pre post take2 drop2 by simp
  qed
qed

lemma merge_sort_correct:
  "mset (fst (merge_sort d s)) = mset (fst s) \<and> sorted_per d (fst (merge_sort d s))"
proof -
  let ?r = "fst (merge_sort_range d 0 (length (fst s)) s)"
  from merge_sort_range_props [of 0 "length (fst s)" s d]
  have "length ?r = length (fst s)" "mset (segment ?r 0 (length (fst s))) = mset (fst s)"
    "sorted_wrt (inorder d) (segment ?r 0 (length (fst s)))"
    by (simp_all add: segment_whole)
  then show ?thesis
    using segment_whole [of ?r] by (simp add: merge_sort_def sorted_per_iff_wrt)
qed

subsection \<open>Quick sort: the partition, termination and correctness\<close>

lemma partition_loop_props:
  assumes "partition_loop d pv hp [j..<hp] i s = (i', s')"
    and "lo \<le> i" and "i \<le> j" and "j \<le> hp" and "hp < length (fst s)"
    and "\<forall>k. lo \<le> k \<and> k < i \<longrightarrow> shouldSwap d pv (fst s ! k)"
    and "\<forall>k. i \<le> k \<and> k < j \<longrightarrow> \<not> shouldSwap d pv (fst s ! k)"
  shows "length (fst s') = length (fst s) \<and> mset (fst s') = mset (fst s)
    \<and> i \<le> i' \<and> i' \<le> hp
    \<and> (\<forall>k. k < lo \<or> hp \<le> k \<longrightarrow> fst s' ! k = fst s ! k)
    \<and> (\<forall>k. lo \<le> k \<and> k < i' \<longrightarrow> shouldSwap d pv (fst s' ! k))
    \<and> (\<forall>k. i' \<le> k \<and> k < hp \<longrightarrow> \<not> shouldSwap d pv (fst s' ! k))"
  using assms
proof (induction "hp - j" arbitrary: j i s)
  case 0
  then have "j = hp" by simp
  with 0 show ?case by auto
next
  case (Suc n)
  then have j: "j < hp" by simp
  let ?a = "fst s"
  let ?s1 = "emit KCompare [j, hp] s"
  have upt: "[j..<hp] = j # [Suc j..<hp]"
    using j by (simp add: upt_conv_Cons)
  have n: "n = hp - Suc j" using Suc(2) by simp
  show ?case
  proof (cases "shouldSwap d pv (?a ! j)")
    case True
    let ?s2 = "swap_at i j ?s1"
    let ?b = "?a[i := ?a ! j, j := ?a ! i]"
    have b: "fst ?s2 = ?b" by simp
    have run: "partition_loop d pv hp [Suc j..<hp] (Suc i) ?s2 = (i', s')"
      using Suc.prems(1) True by (simp add: upt)
    have ij: "i < length ?a" "j < length ?a"
      using Suc.prems(3,5) j by simp_all
    have A1: "\<forall>k. lo \<le> k \<and> k < Suc i \<longrightarrow> shouldSwap d pv (fst ?s2 ! k)"
      unfolding b
    proof (intro allI impI)
      fix k assume k: "lo \<le> k \<and> k < Suc i"
      show "shouldSwap d pv (?b ! k)"
      proof (cases "k = i")
        case True
        then have "?b ! k = ?a ! j"
          using ij by (auto simp: nth_list_update)
        then show ?thesis using \<open>shouldSwap d pv (?a ! j)\<close> by simp
      next
        case False
        then have "?b ! k = ?a ! k"
          using k Suc.prems(3) by (auto simp: nth_list_update)
        then show ?thesis using k False Suc.prems(6) by simp
      qed
    qed
    have A2: "\<forall>k. Suc i \<le> k \<and> k < Suc j \<longrightarrow> \<not> shouldSwap d pv (fst ?s2 ! k)"
      unfolding b
    proof (intro allI impI)
      fix k assume k: "Suc i \<le> k \<and> k < Suc j"
      show "\<not> shouldSwap d pv (?b ! k)"
      proof (cases "k = j")
        case True
        then have "?b ! k = ?a ! i"
          using ij by (auto simp: nth_list_update)
        moreover have "i < j" using k True by simp
        ultimately show ?thesis using Suc.prems(7) by simp
      next
        case False
        then have "?b ! k = ?a ! k"
          using k by (auto simp: nth_list_update)
        then show ?thesis using k False Suc.prems(7) by simp
      qed
    qed
    have IH: "length (fst s') = length (fst ?s2) \<and> mset (fst s') = mset (fst ?s2)
      \<and> Suc i \<le> i' \<and> i' \<le> hp
      \<and> (\<forall>k. k < lo \<or> hp \<le> k \<longrightarrow> fst s' ! k = fst ?s2 ! k)
      \<and> (\<forall>k. lo \<le> k \<and> k < i' \<longrightarrow> shouldSwap d pv (fst s' ! k))
      \<and> (\<forall>k. i' \<le> k \<and> k < hp \<longrightarrow> \<not> shouldSwap d pv (fst s' ! k))"
      using Suc.prems(2,3,5) j
      by (intro Suc(1) [OF n run _ _ _ _ A1 A2]) simp_all
    have "mset ?b = mset ?a"
      using ij by (simp add: mset_swap)
    moreover have "\<forall>k. k < lo \<or> hp \<le> k \<longrightarrow> ?b ! k = ?a ! k"
      using Suc.prems(2,3) j by (auto simp: nth_list_update)
    ultimately show ?thesis
      using IH unfolding b by auto
  next
    case False
    have run: "partition_loop d pv hp [Suc j..<hp] i ?s1 = (i', s')"
      using Suc.prems(1) False by (simp add: upt)
    have A1: "\<forall>k. lo \<le> k \<and> k < i \<longrightarrow> shouldSwap d pv (fst ?s1 ! k)"
      using Suc.prems(6) by simp
    have A2: "\<forall>k. i \<le> k \<and> k < Suc j \<longrightarrow> \<not> shouldSwap d pv (fst ?s1 ! k)"
      using Suc.prems(7) False by (auto simp: less_Suc_eq)
    have "length (fst s') = length (fst ?s1) \<and> mset (fst s') = mset (fst ?s1)
      \<and> i \<le> i' \<and> i' \<le> hp
      \<and> (\<forall>k. k < lo \<or> hp \<le> k \<longrightarrow> fst s' ! k = fst ?s1 ! k)
      \<and> (\<forall>k. lo \<le> k \<and> k < i' \<longrightarrow> shouldSwap d pv (fst s' ! k))
      \<and> (\<forall>k. i' \<le> k \<and> k < hp \<longrightarrow> \<not> shouldSwap d pv (fst s' ! k))"
      using Suc.prems(2,3,5) j
      by (intro Suc(1) [OF n run _ _ _ _ A1 A2]) simp_all
    then show ?thesis by simp
  qed
qed

lemma partition_props:
  assumes "partition_range d lo hi s = (p, s')" and "lo < hi" and "hi \<le> length (fst s)"
  shows "length (fst s') = length (fst s) \<and> mset (fst s') = mset (fst s)
    \<and> lo \<le> p \<and> p < hi
    \<and> (\<forall>k. k < lo \<or> hi \<le> k \<longrightarrow> fst s' ! k = fst s ! k)
    \<and> (\<forall>k. lo \<le> k \<and> k < p \<longrightarrow> inorder d (fst s' ! k) (fst s' ! p))
    \<and> (\<forall>k. p < k \<and> k < hi \<longrightarrow> inorder d (fst s' ! p) (fst s' ! k))"
proof -
  let ?a = "fst s"
  let ?hp = "hi - 1"
  let ?pv = "?a ! ?hp"
  let ?s0 = "emit KPivot [?hp] s"
  obtain i s1 where loop: "partition_loop d ?pv ?hp [lo..<?hp] lo ?s0 = (i, s1)"
    by (cases "partition_loop d ?pv ?hp [lo..<?hp] lo ?s0")
  have res: "p = i" "s' = swap_at i ?hp s1"
    using assms(1) loop by (auto simp: partition_range_def)
  have hp: "lo \<le> ?hp" "?hp < length (fst ?s0)"
    using assms(2,3) by simp_all
  have "\<forall>k. lo \<le> k \<and> k < lo \<longrightarrow> shouldSwap d ?pv (fst ?s0 ! k)"
    and "\<forall>k. lo \<le> k \<and> k < lo \<longrightarrow> \<not> shouldSwap d ?pv (fst ?s0 ! k)"
    by auto
  from partition_loop_props [OF loop order_refl order_refl hp this]
  have L: "length (fst s1) = length ?a" "mset (fst s1) = mset ?a" "lo \<le> i" "i \<le> ?hp"
    "\<forall>k. k < lo \<or> ?hp \<le> k \<longrightarrow> fst s1 ! k = ?a ! k"
    "\<forall>k. lo \<le> k \<and> k < i \<longrightarrow> shouldSwap d ?pv (fst s1 ! k)"
    "\<forall>k. i \<le> k \<and> k < ?hp \<longrightarrow> \<not> shouldSwap d ?pv (fst s1 ! k)"
    by simp_all
  let ?b = "fst s1"
  let ?c = "?b[i := ?b ! ?hp, ?hp := ?b ! i]"
  have c: "fst s' = ?c" by (simp add: res)
  have bhp: "?b ! ?hp = ?pv" using L(5) by simp
  have ilen: "i < length ?b" "?hp < length ?b"
    using L(1,4) assms(2,3) by simp_all
  have cp: "?c ! i = ?pv"
    using ilen bhp by (cases "i = ?hp") (simp_all add: nth_list_update)
  have "mset ?c = mset ?b"
    using ilen by (simp add: mset_swap)
  moreover have "\<forall>k. k < lo \<or> hi \<le> k \<longrightarrow> ?c ! k = ?a ! k"
    using L(3,4,5) assms(2) by (auto simp: nth_list_update)
  moreover have "\<forall>k. lo \<le> k \<and> k < i \<longrightarrow> inorder d (?c ! k) (?c ! i)"
  proof (intro allI impI)
    fix k assume k: "lo \<le> k \<and> k < i"
    then have "?c ! k = ?b ! k"
      using L(4) by (auto simp: nth_list_update)
    moreover have "inorder d (?b ! k) ?pv"
      using k L(6) by (auto intro: shouldSwap_inorder)
    ultimately show "inorder d (?c ! k) (?c ! i)" using cp by simp
  qed
  moreover have "\<forall>k. i < k \<and> k < hi \<longrightarrow> inorder d (?c ! i) (?c ! k)"
  proof (intro allI impI)
    fix k assume k: "i < k \<and> k < hi"
    have "inorder d ?pv (?c ! k)"
    proof (cases "k = ?hp")
      case True
      then have "?c ! k = ?b ! i"
        using ilen by (simp add: nth_list_update)
      moreover have "i < ?hp" using k True by simp
      ultimately show ?thesis using L(7) by (simp add: inorder_def)
    next
      case False
      then have "?c ! k = ?b ! k" "k < ?hp"
        using k by (auto simp: nth_list_update)
      then show ?thesis using k L(7) by (simp add: inorder_def)
    qed
    then show "inorder d (?c ! i) (?c ! k)" using cp by simp
  qed
  ultimately show ?thesis
    unfolding c res(1) using L(1,2,3,4) assms(2) by auto
qed

lemma partition_index:
  assumes "(p, s1) = partition_range d lo hi s" and "\<not> hi - lo < 2"
  shows "lo \<le> p \<and> p < hi"
proof -
  let ?hp = "hi - 1"
  let ?s0 = "emit KPivot [?hp] s"
  obtain i s2 where loop: "partition_loop d (fst ?s0 ! ?hp) ?hp [lo..<?hp] lo ?s0 = (i, s2)"
    by (cases "partition_loop d (fst ?s0 ! ?hp) ?hp [lo..<?hp] lo ?s0")
  have bound: "partition_loop d pv hp todo i s = (i', s') \<Longrightarrow> i \<le> i' \<and> i' \<le> i + length todo"
    for pv hp todo i i' and s s' :: gen_state
  proof (induction todo arbitrary: i s)
    case Nil
    then show ?case by simp
  next
    case (Cons j todo)
    then show ?case
      by (cases "shouldSwap d pv (fst s ! j)") (fastforce simp: Let_def)+
  qed
  from bound [OF loop] have "lo \<le> i \<and> i \<le> lo + (?hp - lo)" by simp
  moreover have "p = i"
    using assms(1) loop by (simp add: partition_range_def)
  ultimately show ?thesis using assms(2) by auto
qed

termination quick_sort_range
proof (relation "measure (\<lambda>(d, lo, hi, s). hi - lo)", goal_cases)
  case 1
  show ?case by simp
next
  case (2 d lo hi s p s1)
  from 2 have "lo \<le> p \<and> p < hi" by (intro partition_index)
  moreover from 2 have "partition_range d lo hi s = (p, s1)" by simp
  ultimately show ?case by auto
next
  case (3 d lo hi s p s1)
  from 3(2,1) have "lo \<le> p \<and> p < hi" by (rule partition_index)
  then show ?case by auto
qed

declare quick_sort_range.simps [simp del]

lemma segment_nth:
  assumes "lo \<le> hi" and "hi \<le> length a"
  shows "segment a lo hi = map (\<lambda>k. a ! k) [lo..<hi]"
proof (rule nth_equalityI)
  show "length (segment a lo hi) = length (map (\<lambda>k. a ! k) [lo..<hi])"
    using assms by (simp add: segment_def)
next
  fix i assume "i < length (segment a lo hi)"
  then have "i < hi - lo" using assms by (simp add: segment_def)
  then show "segment a lo hi ! i = map (\<lambda>k. a ! k) [lo..<hi] ! i"
    using assms by (simp add: segment_def)
qed

lemma set_segment:
  assumes "lo \<le> hi" and "hi \<le> length a"
  shows "set (segment a lo hi) = {a ! k | k. lo \<le> k \<and> k < hi}"
  unfolding segment_nth [OF assms] by auto

lemma frame_take_drop:
  assumes "length r = length a" and "\<forall>k. k < lo \<or> hi \<le> k \<longrightarrow> r ! k = a ! k"
  shows "take lo r = take lo a" and "drop hi r = drop hi a"
proof -
  show "take lo r = take lo a"
  proof (rule nth_equalityI)
    show "length (take lo r) = length (take lo a)" using assms(1) by simp
  next
    fix i assume "i < length (take lo r)"
    then show "take lo r ! i = take lo a ! i" using assms(2) by simp
  qed
  show "drop hi r = drop hi a"
  proof (rule nth_equalityI)
    show "length (drop hi r) = length (drop hi a)" using assms(1) by simp
  next
    fix i assume "i < length (drop hi r)"
    then show "drop hi r ! i = drop hi a ! i" using assms by simp
  qed
qed

lemma mset_split3:
  "lo \<le> hi \<Longrightarrow> mset a = mset (take lo a) + mset (segment a lo hi) + mset (drop hi a)"
proof -
  assume "lo \<le> hi"
  then have "mset a = mset (take lo a @ segment a lo hi @ drop hi a)"
    by (intro arg_cong [where f = mset] list_split3)
  then show ?thesis by (simp only: mset_append add.assoc)
qed

lemma frame_mset_segment:
  assumes "length r = length a" and "\<forall>k. k < lo \<or> hi \<le> k \<longrightarrow> r ! k = a ! k"
    and "mset r = mset a" and "lo \<le> hi"
  shows "mset (segment r lo hi) = mset (segment a lo hi)"
proof -
  have "mset (take lo r) + mset (segment r lo hi) + mset (drop hi r) = mset r"
    by (rule mset_split3 [OF assms(4), symmetric])
  also have "\<dots> = mset a" by (rule assms(3))
  also have "\<dots> = mset (take lo a) + mset (segment a lo hi) + mset (drop hi a)"
    by (rule mset_split3 [OF assms(4)])
  finally have "mset (take lo a) + mset (segment r lo hi) + mset (drop hi a) =
        mset (take lo a) + mset (segment a lo hi) + mset (drop hi a)"
    by (simp only: frame_take_drop [OF assms(1,2)])
  then show ?thesis by simp
qed

lemma frame_range_transfer:
  fixes r a :: "int list"
  assumes "length r = length a" and "\<forall>k. k < lo \<or> hi \<le> k \<longrightarrow> r ! k = a ! k"
    and "mset r = mset a" and "lo \<le> hi" and "hi \<le> length a"
    and "\<forall>k. lo \<le> k \<and> k < hi \<longrightarrow> P (a ! k)"
  shows "\<forall>k. lo \<le> k \<and> k < hi \<longrightarrow> P (r ! k)"
proof (intro allI impI)
  fix k assume k: "lo \<le> k \<and> k < hi"
  have hr: "hi \<le> length r" using assms(1,5) by simp
  have sets: "set (segment r lo hi) = set (segment a lo hi)"
    using frame_mset_segment [OF assms(1-4)] by (rule mset_eq_setD)
  have "r ! k \<in> set (segment r lo hi)"
    unfolding set_segment [OF assms(4) hr] using k by blast
  then have "r ! k \<in> set (segment a lo hi)"
    by (simp only: sets)
  then obtain k' where "lo \<le> k' \<and> k' < hi" "r ! k = a ! k'"
    unfolding set_segment [OF assms(4,5)] by blast
  then show "P (r ! k)" using assms(6) by simp
qed

lemma quick_sort_range_props:
  "lo \<le> hi \<Longrightarrow> hi \<le> length (fst s) \<Longrightarrow>
   length (fst (quick_sort_range d lo hi s)) = length (fst s)
   \<and> mset (fst (quick_sort_range d lo hi s)) = mset (fst s)
   \<and> (\<forall>k. k < lo \<or> hi \<le> k \<longrightarrow> fst (quick_sort_range d lo hi s) ! k = fst s ! k)
   \<and> (\<forall>x y. lo \<le> x \<and> x < y \<and> y < hi \<longrightarrow>
         inorder d (fst (quick_sort_range d lo hi s) ! x) (fst (quick_sort_range d lo hi s) ! y))"
proof (induction d lo hi s rule: quick_sort_range.induct)
  case (1 d lo hi s)
  show ?case
  proof (cases "hi - lo < 2")
    case True
    then have "quick_sort_range d lo hi s = s"
      by (simp add: quick_sort_range.simps [of d lo hi s])
    moreover have "\<forall>x y. lo \<le> x \<and> x < y \<and> y < hi \<longrightarrow> inorder d (fst s ! x) (fst s ! y)"
      using True by auto
    ultimately show ?thesis by simp
  next
    case False
    obtain p s1 where part: "partition_range d lo hi s = (p, s1)"
      by (cases "partition_range d lo hi s")
    let ?a = "fst s" and ?a1 = "fst s1"
    let ?s2 = "quick_sort_range d lo p s1"
    let ?s3 = "quick_sort_range d (Suc p) hi ?s2"
    let ?a2 = "fst ?s2" and ?a3 = "fst ?s3"
    have lohi: "lo < hi" using False by simp
    from partition_props [OF part lohi 1(4)]
    have P: "length ?a1 = length ?a" "mset ?a1 = mset ?a" "lo \<le> p" "p < hi"
      "\<forall>k. k < lo \<or> hi \<le> k \<longrightarrow> ?a1 ! k = ?a ! k"
      "\<forall>k. lo \<le> k \<and> k < p \<longrightarrow> inorder d (?a1 ! k) (?a1 ! p)"
      "\<forall>k. p < k \<and> k < hi \<longrightarrow> inorder d (?a1 ! p) (?a1 ! k)"
      by simp_all
    have p1: "p \<le> length ?a1" using P(1,4) 1(4) by simp
    from 1(1) [OF False part [symmetric] P(3) p1]
    have Q2: "length ?a2 = length ?a1" "mset ?a2 = mset ?a1"
      "\<forall>k. k < lo \<or> p \<le> k \<longrightarrow> ?a2 ! k = ?a1 ! k"
      "\<forall>x y. lo \<le> x \<and> x < y \<and> y < p \<longrightarrow> inorder d (?a2 ! x) (?a2 ! y)"
      by simp_all
    have p2: "Suc p \<le> hi" "hi \<le> length ?a2" using P(1,4) Q2(1) 1(4) by simp_all
    from 1(2) [OF False part [symmetric] p2]
    have Q3: "length ?a3 = length ?a2" "mset ?a3 = mset ?a2"
      "\<forall>k. k < Suc p \<or> hi \<le> k \<longrightarrow> ?a3 ! k = ?a2 ! k"
      "\<forall>x y. Suc p \<le> x \<and> x < y \<and> y < hi \<longrightarrow> inorder d (?a3 ! x) (?a3 ! y)"
      by simp_all
    have run: "quick_sort_range d lo hi s = ?s3"
      using False part by (simp add: quick_sort_range.simps [of d lo hi s])
    let ?pv = "?a1 ! p"
    have pv2: "?a2 ! p = ?pv" using Q2(3) by simp
    have pv3: "?a3 ! p = ?pv" using Q3(3) pv2 by simp
    have left2: "\<forall>k. lo \<le> k \<and> k < p \<longrightarrow> inorder d (?a2 ! k) ?pv"
      using Q2(1,3,2) P(3) p1 P(6)
      by (rule frame_range_transfer [where P = "\<lambda>v. inorder d v ?pv"])
    have left3: "\<forall>k. lo \<le> k \<and> k < p \<longrightarrow> inorder d (?a3 ! k) ?pv"
      using left2 Q3(3) by simp
    have right2: "\<forall>k. Suc p \<le> k \<and> k < hi \<longrightarrow> inorder d ?pv (?a2 ! k)"
      using P(7) Q2(3) by simp
    have right3: "\<forall>k. Suc p \<le> k \<and> k < hi \<longrightarrow> inorder d ?pv (?a3 ! k)"
      using Q3(1,3,2) p2 right2
      by (rule frame_range_transfer [where P = "\<lambda>v. inorder d ?pv v"])
    have sorted: "inorder d (?a3 ! x) (?a3 ! y)" if xy: "lo \<le> x" "x < y" "y < hi" for x y
    proof -
      consider "y < p" | "y = p" | "x < p" "p < y" | "x = p" | "p < x"
        using xy by linarith
      then show ?thesis
      proof cases
        case 1
        then have "?a3 ! x = ?a2 ! x" "?a3 ! y = ?a2 ! y" using Q3(3) xy by simp_all
        then show ?thesis using Q2(4) 1 xy by simp
      next
        case 2
        then show ?thesis using left3 xy pv3 by simp
      next
        case 3
        have "inorder d (?a3 ! x) ?pv" using left3 3 xy by simp
        moreover have "inorder d ?pv (?a3 ! y)" using right3 3 xy by simp
        ultimately show ?thesis by (rule inorder_trans)
      next
        case 4
        then show ?thesis using right3 xy pv3 by simp
      next
        case 5
        then show ?thesis using Q3(4) xy by simp
      qed
    qed
    have frame: "\<forall>k. k < lo \<or> hi \<le> k \<longrightarrow> ?a3 ! k = ?a ! k"
      using Q3(3) Q2(3) P(3,4,5) by auto
    show ?thesis
      unfolding run using Q3(1,2) Q2(1,2) P(1,2) frame sorted by simp
  qed
qed

lemma quick_sort_correct:
  "mset (fst (quick_sort d s)) = mset (fst s) \<and> sorted_per d (fst (quick_sort d s))"
  using quick_sort_range_props [of 0 "length (fst s)" s d]
  by (simp add: quick_sort_def sorted_per_iff_nth)

subsection \<open>Heap sort: the sift-down, the heap and the extraction\<close>

lemma sift_target_cases:
  "sift_target d a n i = i
   \<or> (sift_target d a n i = 2 * i + 1 \<and> 2 * i + 1 < n)
   \<or> (sift_target d a n i = 2 * i + 2 \<and> 2 * i + 2 < n)"
  by (auto simp: sift_target_def Let_def)

termination sift_down
proof (relation "measure (\<lambda>(d, n, i, s). n - i)", goal_cases)
  case 1
  show ?case by simp
next
  case (2 d n i s)
  then show ?case
    using sift_target_cases [of d "fst s" n i] by auto
qed

declare sift_down.simps [simp del]

lemma fst_sift_compares [simp]: "fst (sift_compares d n i s) = fst s"
  by (simp add: sift_compares_def Let_def)

lemma fst_sift_move [simp]: "fst (sift_move i m s) = (fst s)[i := fst s ! m, m := fst s ! i]"
  by (simp add: sift_move_def)

lemma shouldSwap_irrefl [simp]: "\<not> shouldSwap d a a"
  by (cases d) simp_all

lemma sift_target_stay:
  "sift_target d a n i = i \<Longrightarrow> heap_at d a n i"
  by (auto simp: sift_target_def Let_def heap_at_def inorder_def split: if_splits)

lemma sift_target_extremum:
  assumes "sift_target d a n i = m"
  shows "inorder d (a ! i) (a ! m)"
    and "2 * i + 1 < n \<Longrightarrow> inorder d (a ! (2 * i + 1)) (a ! m)"
    and "2 * i + 2 < n \<Longrightarrow> inorder d (a ! (2 * i + 2)) (a ! m)"
proof -
  let ?l = "2 * i + 1" and ?r = "2 * i + 2"
  let ?m1 = "if ?l < n \<and> shouldSwap d (a ! ?l) (a ! i) then ?l else i"
  have m1i: "inorder d (a ! i) (a ! ?m1)"
    by (auto intro: shouldSwap_inorder)
  have m1l: "?l < n \<Longrightarrow> inorder d (a ! ?l) (a ! ?m1)"
    by (auto simp: inorder_def)
  have m: "m = (if ?r < n \<and> shouldSwap d (a ! ?r) (a ! ?m1) then ?r else ?m1)"
    by (rule assms [unfolded sift_target_def Let_def, symmetric])
  have m1m: "inorder d (a ! ?m1) (a ! m)"
    unfolding m by (auto intro: shouldSwap_inorder)
  show "inorder d (a ! i) (a ! m)"
    using m1i m1m by (rule inorder_trans)
  show "inorder d (a ! ?l) (a ! m)" if "?l < n"
    using m1l [OF that] m1m by (rule inorder_trans)
  show "inorder d (a ! ?r) (a ! m)" if "?r < n"
    unfolding m using that by (auto simp: inorder_def)
qed

lemma sift_down_props:
  "n \<le> length (fst s) \<Longrightarrow> i < n \<Longrightarrow> lo \<le> i \<Longrightarrow>
   \<forall>j. lo \<le> j \<and> j \<noteq> i \<longrightarrow> heap_at d (fst s) n j \<Longrightarrow>
   \<forall>j c. lo \<le> j \<and> (i = 2 * j + 1 \<or> i = 2 * j + 2) \<and> (c = 2 * i + 1 \<or> c = 2 * i + 2) \<and> c < n
          \<longrightarrow> inorder d (fst s ! c) (fst s ! j) \<Longrightarrow>
   length (fst (sift_down d n i s)) = length (fst s)
   \<and> mset (fst (sift_down d n i s)) = mset (fst s)
   \<and> (\<forall>k. k < i \<or> n \<le> k \<longrightarrow> fst (sift_down d n i s) ! k = fst s ! k)
   \<and> (\<forall>j. lo \<le> j \<longrightarrow> heap_at d (fst (sift_down d n i s)) n j)"
proof (induction d n i s rule: sift_down.induct)
  case (1 d n i s)
  let ?a = "fst s"
  let ?m = "sift_target d ?a n i"
  show ?case
  proof (cases "?m = i")
    case True
    then have run: "sift_down d n i s = sift_compares d n i s"
      by (simp add: sift_down.simps [of d n i s])
    have "heap_at d ?a n i"
      using True by (rule sift_target_stay)
    with 1(5) have "\<forall>j. lo \<le> j \<longrightarrow> heap_at d ?a n j"
      by (metis)
    then show ?thesis
      unfolding run by simp
  next
    case False
    let ?s1 = "sift_move i ?m (sift_compares d n i s)"
    let ?b = "?a[i := ?a ! ?m, ?m := ?a ! i]"
    have b: "fst ?s1 = ?b" by simp
    have run: "sift_down d n i s = sift_down d n ?m ?s1"
      using False by (simp add: sift_down.simps [of d n i s])
    have m: "(?m = 2 * i + 1 \<or> ?m = 2 * i + 2) \<and> ?m < n"
      using sift_target_cases [of d ?a n i] False by auto
    have ilen: "i < length ?a" "?m < length ?a"
      using 1(2,3) m by simp_all
    have bi: "?b ! i = ?a ! ?m" and bm: "?b ! ?m = ?a ! i"
      using ilen False by (simp_all add: nth_list_update)
    have bk: "?b ! k = ?a ! k" if "k \<noteq> i" "k \<noteq> ?m" for k
      using that by (simp add: nth_list_update)
    have ext: "inorder d (?a ! i) (?a ! ?m)"
      "2 * i + 1 < n \<Longrightarrow> inorder d (?a ! (2 * i + 1)) (?a ! ?m)"
      "2 * i + 2 < n \<Longrightarrow> inorder d (?a ! (2 * i + 2)) (?a ! ?m)"
      using sift_target_extremum [of d ?a n i ?m, OF refl] by simp_all
    have heap_i: "heap_at d ?b n i"
      unfolding heap_at_def
    proof (intro conjI impI)
      assume l: "2 * i + 1 < n"
      show "inorder d (?b ! (2 * i + 1)) (?b ! i)"
      proof (cases "?m = 2 * i + 1")
        case True
        then show ?thesis using bm bi ext(1) by simp
      next
        case False
        then have "?b ! (2 * i + 1) = ?a ! (2 * i + 1)" by (intro bk) simp_all
        then show ?thesis using bi ext(2) [OF l] by simp
      qed
    next
      assume r: "2 * i + 2 < n"
      show "inorder d (?b ! (2 * i + 2)) (?b ! i)"
      proof (cases "?m = 2 * i + 2")
        case True
        then show ?thesis using bm bi ext(1) by simp
      next
        case False
        then have "?b ! (2 * i + 2) = ?a ! (2 * i + 2)" by (intro bk) simp_all
        then show ?thesis using bi ext(3) [OF r] by simp
      qed
    qed
    have heap_other: "heap_at d ?b n j" if j: "lo \<le> j" "j \<noteq> ?m" "j \<noteq> i" for j
    proof -
      have hj: "heap_at d ?a n j" using 1(5) j by simp
      have bj: "?b ! j = ?a ! j" using j by (intro bk)
      have child: "inorder d (?b ! c) (?a ! j)"
        if c: "c = 2 * j + 1 \<or> c = 2 * j + 2" "c < n" for c
      proof (cases "c = i")
        case True
        have "inorder d (?a ! ?m) (?a ! j)"
          using 1(6) j(1) c True m by blast
        then show ?thesis using True bi by simp
      next
        case False
        have "c \<noteq> ?m" using c(1) m j(3) by auto
        then have "?b ! c = ?a ! c" using False by (intro bk)
        then show ?thesis using hj c by (auto simp: heap_at_def)
      qed
      show ?thesis
        unfolding heap_at_def bj using child by simp
    qed
    have H: "\<forall>j. lo \<le> j \<and> j \<noteq> ?m \<longrightarrow> heap_at d (fst ?s1) n j"
      unfolding b using heap_i heap_other by blast
    have B: "\<forall>j c. lo \<le> j \<and> (?m = 2 * j + 1 \<or> ?m = 2 * j + 2)
        \<and> (c = 2 * ?m + 1 \<or> c = 2 * ?m + 2) \<and> c < n
          \<longrightarrow> inorder d (fst ?s1 ! c) (fst ?s1 ! j)"
      unfolding b
    proof (intro allI impI)
      fix j c
      assume jc: "lo \<le> j \<and> (?m = 2 * j + 1 \<or> ?m = 2 * j + 2)
        \<and> (c = 2 * ?m + 1 \<or> c = 2 * ?m + 2) \<and> c < n"
      then have ji: "j = i" using m by auto
      have "c \<noteq> i" "c \<noteq> ?m" using jc m by auto
      then have bc: "?b ! c = ?a ! c" by (intro bk)
      have "lo \<le> ?m" using 1(4) m by auto
      then have "heap_at d ?a n ?m" using 1(5) False by simp
      then have "inorder d (?a ! c) (?a ! ?m)" using jc by (auto simp: heap_at_def)
      then show "inorder d (?b ! c) (?b ! j)" using bc bi ji by simp
    qed
    have len: "n \<le> length (fst ?s1)" using 1(2) by simp
    have mn: "?m < n" "lo \<le> ?m" using m 1(4) by auto
    from 1(1) [OF False len mn H B]
    have IH: "length (fst (sift_down d n ?m ?s1)) = length ?b"
      "mset (fst (sift_down d n ?m ?s1)) = mset ?b"
      "\<forall>k. k < ?m \<or> n \<le> k \<longrightarrow> fst (sift_down d n ?m ?s1) ! k = ?b ! k"
      "\<forall>j. lo \<le> j \<longrightarrow> heap_at d (fst (sift_down d n ?m ?s1)) n j"
      unfolding b by simp_all
    have "mset ?b = mset ?a"
      using ilen by (simp add: mset_swap)
    moreover have "\<forall>k. k < i \<or> n \<le> k \<longrightarrow> fst (sift_down d n ?m ?s1) ! k = ?a ! k"
    proof (intro allI impI)
      fix k assume k: "k < i \<or> n \<le> k"
      then have k': "k \<noteq> i" "k \<noteq> ?m" "k < ?m \<or> n \<le> k" using m 1(3) by auto
      have "fst (sift_down d n ?m ?s1) ! k = ?b ! k"
        using IH(3) k'(3) by blast
      also have "\<dots> = ?a ! k" using k'(1,2) by (rule bk)
      finally show "fst (sift_down d n ?m ?s1) ! k = ?a ! k" .
    qed
    ultimately show ?thesis
      unfolding run using IH by simp
  qed
qed

lemma build_loop_props:
  "length (fst s) = n \<Longrightarrow> h \<le> n \<Longrightarrow> \<forall>j. h \<le> j \<longrightarrow> heap_at d (fst s) n j \<Longrightarrow>
   length (fst (foldl (\<lambda>s i. sift_down d (length (fst s)) i s) s (rev [0..<h]))) = n
   \<and> mset (fst (foldl (\<lambda>s i. sift_down d (length (fst s)) i s) s (rev [0..<h]))) = mset (fst s)
   \<and> (\<forall>j. heap_at d (fst (foldl (\<lambda>s i. sift_down d (length (fst s)) i s) s (rev [0..<h]))) n j)"
proof (induction h arbitrary: s)
  case 0
  then show ?case by simp
next
  case (Suc h)
  let ?s1 = "sift_down d n h s"
  have H: "\<forall>j. h \<le> j \<and> j \<noteq> h \<longrightarrow> heap_at d (fst s) n j"
    using Suc.prems(3) by (simp add: Suc_le_eq)
  have B: "\<forall>j c. h \<le> j \<and> (h = 2 * j + 1 \<or> h = 2 * j + 2) \<and> (c = 2 * h + 1 \<or> c = 2 * h + 2) \<and> c < n
          \<longrightarrow> inorder d (fst s ! c) (fst s ! j)"
    by auto
  have n: "n \<le> length (fst s)" "h < n" using Suc.prems(1,2) by simp_all
  from sift_down_props [OF n order_refl H B]
  have P: "length (fst ?s1) = n" "mset (fst ?s1) = mset (fst s)"
    "\<forall>j. h \<le> j \<longrightarrow> heap_at d (fst ?s1) n j"
    using Suc.prems(1) by simp_all
  have run: "foldl (\<lambda>s i. sift_down d (length (fst s)) i s) s (rev [0..<Suc h]) =
        foldl (\<lambda>s i. sift_down d (length (fst s)) i s) ?s1 (rev [0..<h])"
    using Suc.prems(1) by simp
  have "h \<le> n" using n by simp
  from Suc.IH [OF P(1) this P(3)] show ?case
    unfolding run using P(2) by simp
qed

lemma build_heap_props:
  "length (fst (build_heap d s)) = length (fst s)
   \<and> mset (fst (build_heap d s)) = mset (fst s)
   \<and> (\<forall>j. heap_at d (fst (build_heap d s)) (length (fst s)) j)"
proof -
  have "\<forall>j. length (fst s) div 2 \<le> j \<longrightarrow> heap_at d (fst s) (length (fst s)) j"
    by (auto simp: heap_at_def)
  from build_loop_props [OF refl _ this] show ?thesis
    by (simp add: build_heap_def)
qed

lemma heap_root_extremum:
  assumes "\<forall>j. heap_at d a n j"
  shows "k < n \<Longrightarrow> inorder d (a ! k) (a ! 0)"
proof (induction k rule: less_induct)
  case (less k)
  show ?case
  proof (cases "k = 0")
    case True
    then show ?thesis by simp
  next
    case False
    let ?j = "(k - 1) div 2"
    have kj: "k = 2 * ?j + 1 \<or> k = 2 * ?j + 2" using False by presburger
    have jk: "?j < k" using False by presburger
    have "heap_at d a n ?j" using assms by simp
    with kj less.prems have "inorder d (a ! k) (a ! ?j)"
      by (auto simp: heap_at_def)
    moreover have "inorder d (a ! ?j) (a ! 0)"
      using jk less.prems by (intro less.IH) simp_all
    ultimately show ?thesis by (rule inorder_trans)
  qed
qed

lemma extract_step_props:
  assumes inv: "heap_inv d n (Suc e) (fst s)" and e: "0 < e" "e < n"
  shows "heap_inv d n e (fst (extract_step d s e))"
    and "mset (fst (extract_step d s e)) = mset (fst s)"
proof -
  let ?a = "fst s"
  let ?b = "?a[0 := ?a ! e, e := ?a ! 0]"
  let ?s1 = "swap_at 0 e s"
  let ?r = "fst (sift_down d e 0 ?s1)"
  have len: "length ?a = n" and heap: "\<forall>j. heap_at d ?a (Suc e) j"
    and suffix: "\<forall>p q. p < q \<and> Suc e \<le> q \<and> q < n \<longrightarrow> inorder d (?a ! p) (?a ! q)"
    using inv by (simp_all add: heap_inv_def)
  have b: "fst ?s1 = ?b" by simp
  have b0: "?b ! 0 = ?a ! e" and be: "?b ! e = ?a ! 0"
    using e len by (simp_all add: nth_list_update)
  have bk: "?b ! k = ?a ! k" if "k \<noteq> 0" "k \<noteq> e" for k
    using that by (simp add: nth_list_update)
  have root: "inorder d (?a ! k) (?a ! 0)" if "k \<le> e" for k
    using heap_root_extremum [OF heap, of k] that by simp
  have H: "\<forall>j. 0 \<le> j \<and> j \<noteq> 0 \<longrightarrow> heap_at d (fst ?s1) e j"
    unfolding b
  proof (intro allI impI)
    fix j :: nat assume j: "0 \<le> j \<and> j \<noteq> 0"
    have hj: "heap_at d ?a (Suc e) j" using heap by simp
    show "heap_at d ?b e j"
      unfolding heap_at_def
    proof (intro conjI impI)
      assume c: "2 * j + 1 < e"
      then have "?b ! (2 * j + 1) = ?a ! (2 * j + 1)" "?b ! j = ?a ! j"
        using j by (simp_all add: bk)
      then show "inorder d (?b ! (2 * j + 1)) (?b ! j)"
        using hj c by (simp add: heap_at_def)
    next
      assume c: "2 * j + 2 < e"
      then have "?b ! (2 * j + 2) = ?a ! (2 * j + 2)" "?b ! j = ?a ! j"
        using j by (simp_all add: bk)
      then show "inorder d (?b ! (2 * j + 2)) (?b ! j)"
        using hj c by (simp add: heap_at_def)
    qed
  qed
  have B: "\<forall>j c. 0 \<le> j \<and> (0 = 2 * j + 1 \<or> 0 = 2 * j + 2) \<and> (c = 2 * 0 + 1 \<or> c = 2 * 0 + 2) \<and> c < e
          \<longrightarrow> inorder d (fst ?s1 ! c) (fst ?s1 ! j)"
    by simp
  have elen: "e \<le> length (fst ?s1)" using e len by simp
  from sift_down_props [OF elen e(1) order_refl H B]
  have R: "length ?r = length ?b" "mset ?r = mset ?b"
    "\<forall>k. e \<le> k \<longrightarrow> ?r ! k = ?b ! k" "\<forall>j. heap_at d ?r e j"
    unfolding b by simp_all
  have msetb: "mset ?b = mset ?a"
    using e len by (simp add: mset_swap)
  have frame: "\<forall>k. k < 0 \<or> e \<le> k \<longrightarrow> ?r ! k = ?b ! k"
    using R(3) by simp
  have elb: "e \<le> length ?b" using e len by simp
  have below: "\<forall>k. 0 \<le> k \<and> k < e \<longrightarrow> inorder d (?r ! k) v"
    if v: "\<forall>k. k \<le> e \<longrightarrow> inorder d (?a ! k) v" for v
  proof -
    have bP: "\<forall>k. 0 \<le> k \<and> k < e \<longrightarrow> inorder d (?b ! k) v"
    proof (intro allI impI)
      fix k assume k: "0 \<le> k \<and> k < e"
      show "inorder d (?b ! k) v"
      proof (cases "k = 0")
        case True
        then show ?thesis using b0 v by simp
      next
        case False
        then have "?b ! k = ?a ! k" using k by (simp add: bk)
        then show ?thesis using v k by simp
      qed
    qed
    show ?thesis
      by (rule frame_range_transfer
            [where P = "\<lambda>x. inorder d x v", OF R(1) frame R(2) le0 elb bP])
  qed
  have sorted: "inorder d (?r ! p) (?r ! q)" if pq: "p < q" "e \<le> q" "q < n" for p q
  proof (cases "q = e")
    case True
    have "?r ! q = ?a ! 0" using R(3) True be by simp
    moreover have "inorder d (?r ! p) (?a ! 0)"
      using below [of "?a ! 0"] root pq True by simp
    ultimately show ?thesis by simp
  next
    case False
    then have q: "Suc e \<le> q" using pq by simp
    have rq: "?r ! q = ?a ! q" using R(3) pq False bk [of q] e by simp
    have v: "\<forall>k. k \<le> e \<longrightarrow> inorder d (?a ! k) (?a ! q)"
      using suffix q pq by auto
    have "inorder d (?r ! p) (?a ! q)"
    proof (cases "p < e")
      case True
      then show ?thesis using below [OF v] by simp
    next
      case pe: False
      show ?thesis
      proof (cases "p = e")
        case True
        then have "?r ! p = ?a ! 0" using R(3) be by simp
        then show ?thesis using v by simp
      next
        case False
        then have "?r ! p = ?a ! p" using R(3) pe bk [of p] e by simp
        moreover have "inorder d (?a ! p) (?a ! q)" using suffix pq q by simp
        ultimately show ?thesis by simp
      qed
    qed
    then show ?thesis using rq by simp
  qed
  show "heap_inv d n e (fst (extract_step d s e))"
    unfolding heap_inv_def extract_step_def
    using R(1,4) len sorted by simp
  show "mset (fst (extract_step d s e)) = mset (fst s)"
    unfolding extract_step_def using R(2) msetb by simp
qed

lemma extract_loop_props:
  "heap_inv d n m (fst s) \<Longrightarrow> m \<le> n \<Longrightarrow> (n = 0 \<or> 0 < m) \<Longrightarrow>
   mset (fst (foldl (extract_step d) s (rev [1..<m]))) = mset (fst s)
   \<and> sorted_per d (fst (foldl (extract_step d) s (rev [1..<m])))"
proof (induction m arbitrary: s)
  case 0
  then show ?case
    by (simp add: heap_inv_def sorted_per_iff_nth)
next
  case (Suc e)
  show ?case
  proof (cases "e = 0")
    case True
    have "\<forall>i j. i < j \<longrightarrow> j < length (fst s) \<longrightarrow> inorder d (fst s ! i) (fst s ! j)"
      using Suc.prems(1) True by (auto simp: heap_inv_def)
    then show ?thesis
      using True by (simp add: sorted_per_iff_nth)
  next
    case False
    then have e: "0 < e" "e < n" using Suc.prems(2) by simp_all
    let ?s1 = "extract_step d s e"
    have run: "foldl (extract_step d) s (rev [1..<Suc e]) =
          foldl (extract_step d) ?s1 (rev [1..<e])"
      using e by simp
    have inv1: "heap_inv d n e (fst ?s1)" and m1: "mset (fst ?s1) = mset (fst s)"
      using extract_step_props [OF Suc.prems(1) e] by simp_all
    have "e \<le> n" "n = 0 \<or> 0 < e" using e by simp_all
    from Suc.IH [OF inv1 this] show ?thesis
      unfolding run using m1 by simp
  qed
qed

lemma heap_sort_correct:
  "mset (fst (heap_sort d s)) = mset (fst s) \<and> sorted_per d (fst (heap_sort d s))"
proof -
  let ?n = "length (fst s)"
  have "heap_inv d ?n ?n (fst (build_heap d s))"
    using build_heap_props [of d s] by (auto simp: heap_inv_def)
  moreover have "?n = 0 \<or> 0 < ?n" by auto
  ultimately have
    "mset (fst (foldl (extract_step d) (build_heap d s) (rev [1..<?n]))) = mset (fst (build_heap d s))
     \<and> sorted_per d (fst (foldl (extract_step d) (build_heap d s) (rev [1..<?n])))"
    using extract_loop_props [of d ?n ?n "build_heap d s"] by simp
  then show ?thesis
    using build_heap_props [of d s] by (simp add: heap_sort_def)
qed

subsection \<open>All six generators\<close>

lemma run_algorithm_correct:
  "mset (fst (run_algorithm alg d s)) = mset (fst s)
   \<and> sorted_per d (fst (run_algorithm alg d s))"
  by (cases alg)
     (simp_all add: run_algorithm_def bubble_sort_correct insertion_sort_correct
        selection_sort_correct quick_sort_correct merge_sort_correct heap_sort_correct)

lemma generate_last:
  "generate alg xs d =
     snd (run_algorithm alg d (xs, [])) @
       [\<lparr>kind = KDone, indices = [], arraySnapshot = fst (run_algorithm alg d (xs, [])),
         stepIndex = length (snd (run_algorithm alg d (xs, [])))\<rparr>]"
  by (simp add: generate_def emit_def)

section \<open>The property of the generated sequences\<close>

text \<open>
  C1. For a valid number list, each of the six algorithms and both directions, the
  generated sequence ends with a step of kind \<open>done\<close>, and applying its steps in
  order from the initial array gives an array that is sorted in the requested
  direction and holds the same values as the input, each as often.
\<close>

theorem generated_steps_sort:
  assumes "valid_number_list xs"
  shows "generate alg xs d \<noteq> [] \<and> kind (last (generate alg xs d)) = KDone
    \<and> sorted_per d (apply_steps xs (generate alg xs d))
    \<and> mset (apply_steps xs (generate alg xs d)) = mset xs"
proof -
  have final: "apply_steps xs (generate alg xs d) = fst (run_algorithm alg d (xs, []))"
    by (simp add: generate_last apply_steps_def apply_step_def)
  show ?thesis
    unfolding final using run_algorithm_correct [of alg d "(xs, [])"]
    by (simp add: generate_last)
qed

theorem generated_steps_sort_witness:
  "apply_steps [5, 3, 4, 1, 2] (generate Bubble [5, 3, 4, 1, 2] Ascending) = [1, 2, 3, 4, 5]
   \<and> sorted_per Ascending [1, 2, 3, 4, 5] \<and> mset [1, 2, 3, 4, 5] = mset [5, 3, 4, 1, 2 :: int]
   \<and> apply_steps [5, 3, 4, 1, 2] (generate Heap [5, 3, 4, 1, 2] Descending) = [5, 4, 3, 2, 1]
   \<and> sorted_per Descending [5, 4, 3, 2, 1] \<and> mset [5, 4, 3, 2, 1] = mset [5, 3, 4, 1, 2 :: int]"
proof -
  have v: "valid_number_list [5, 3, 4, 1, 2]"
    by (simp add: valid_number_list_def)
  have b: "apply_steps [5, 3, 4, 1, 2] (generate Bubble [5, 3, 4, 1, 2] Ascending) = [1, 2, 3, 4, 5]"
    by code_simp
  have h: "apply_steps [5, 3, 4, 1, 2] (generate Heap [5, 3, 4, 1, 2] Descending) = [5, 4, 3, 2, 1]"
    by code_simp
  show ?thesis
    using generated_steps_sort [OF v, of Bubble Ascending]
      generated_steps_sort [OF v, of Heap Descending]
    unfolding b h by simp
qed

end
